theory Spec2Isabelle
  imports Complex_Main
begin

section \<open>Data model\<close>

text \<open>
  Python floats are modelled as reals, numpy sample buffers as lists of reals.
  The declarations of \<open>Time\<close>, \<open>Word\<close>, \<open>Section\<close> and \<open>Context\<close> live in
  \<open>FlorenceEngine/Objects\<close>; the records below carry exactly the fields the
  decoder, the coder and the wave connecter read and write.
  The field \<open>end\<close> of \<open>Time\<close> is written \<open>end'\<close>.
\<close>

record Time =
  start :: real
  end' :: real

record Word =
  pitch :: "real option"
  time :: Time
  lrc :: string
  oriWave :: "real list option"
  pitchedWave :: "real list option"

text \<open>
  \<open>Word\<close> objects are mutable and shared between the list handed to the decoder's
  grouping step and the sections it builds, so they live in a store and lists hold
  references to them.
\<close>

type_synonym ref = nat
type_synonym store = "ref \<Rightarrow> Word"

record Section =
  wordList :: "ref list"
  sectionStart :: real
  sectionSrc :: "real list option"

record Context =
  sample_rate :: int
  isDebug :: bool

text \<open>
  Exceptions are values. \<open>OverlapError i e s\<close> is the \<open>ValueError\<close> of
  \<open>_check_overlap\<close> with the three values its message prints; \<open>StageFailed\<close> is
  the \<open>Exception\<close> in which the engine wraps a failure of one of its last three stages.
\<close>

datatype stage = AdjustPitch | SmoothConnect | GenerateOutput

datatype error =
    OverlapError nat real real
  | IndexError
  | ValueError
  | VocoderError
  | AttributeError
  | FileNotFoundError
  | StageFailed stage error

section \<open>FlorenceScoreDecoder: grouping words into sections\<close>

definition TIME_TOLERANCE :: real where
  "TIME_TOLERANCE = 1 / 10 ^ 12"

text \<open>
  \<open>_check_overlap\<close>: the loop over \<open>range(len(words) - 1)\<close>, with its counter.
  The raised \<open>ValueError\<close> is \<open>OverlapError i e s\<close>: the counter and the two times
  that its message prints.
\<close>

fun check_overlap_from :: "store \<Rightarrow> nat \<Rightarrow> ref list \<Rightarrow> error + unit" where
  "check_overlap_from h i (current_word # next_word # rest) =
     (let overlap = end' (time (h current_word)) - start (time (h next_word))
      in if overlap > TIME_TOLERANCE
         then Inl (OverlapError i (end' (time (h current_word))) (start (time (h next_word))))
         else check_overlap_from h (Suc i) (next_word # rest))"
| "check_overlap_from h i words = Inr ()"

definition check_overlap :: "store \<Rightarrow> ref list \<Rightarrow> error + unit" where
  "check_overlap h words = check_overlap_from h 0 words"

text \<open>\<open>_normalnize_time\<close>: the loop over \<open>zip(wordList, wordList[1:])\<close>, writing in place.\<close>

definition set_end :: "store \<Rightarrow> ref \<Rightarrow> real \<Rightarrow> store" where
  "set_end h a v = h(a := (h a)\<lparr>time := (time (h a))\<lparr>end' := v\<rparr>\<rparr>)"

fun normalnize_time :: "store \<Rightarrow> ref list \<Rightarrow> store" where
  "normalnize_time h (current_word # next_word # rest) =
     normalnize_time (set_end h current_word (start (time (h next_word)))) (next_word # rest)"
| "normalnize_time h words = h"

definition create_validated_section :: "store \<Rightarrow> ref list \<Rightarrow> error + (store \<times> Section)" where
  "create_validated_section h word_list =
     (case check_overlap h word_list of
        Inl e \<Rightarrow> Inl e
      | Inr u \<Rightarrow>
          (let h' = normalnize_time h word_list
           in case word_list of
                [] \<Rightarrow> Inl IndexError
              | w0 # ws \<Rightarrow>
                  Inr (h', \<lparr>wordList = word_list, sectionStart = start (time (h' w0)),
                            sectionSrc = None\<rparr>)))"

text \<open>
  The loop of \<open>_group_words_to_sections\<close> over \<open>words[1:]\<close>; its state is the store,
  \<open>sections\<close> and \<open>current_batch\<close>.
\<close>

fun group_loop ::
  "store \<Rightarrow> Section list \<Rightarrow> ref list \<Rightarrow> ref list \<Rightarrow> error + (store \<times> Section list \<times> ref list)"
where
  "group_loop h sections current_batch [] = Inr (h, sections, current_batch)"
| "group_loop h sections current_batch (current_word # rest) =
     (case current_batch of
        [] \<Rightarrow> Inl IndexError
      | b # bs \<Rightarrow>
          (let previous_word = last current_batch;
               time_gap = start (time (h current_word)) - end' (time (h previous_word))
           in if time_gap > TIME_TOLERANCE
              then (case create_validated_section h current_batch of
                      Inl e \<Rightarrow> Inl e
                    | Inr (h', sec) \<Rightarrow> group_loop h' (sections @ [sec]) [current_word] rest)
              else group_loop h sections (current_batch @ [current_word]) rest))"

definition group_words_to_sections :: "store \<Rightarrow> ref list \<Rightarrow> error + (store \<times> Section list)" where
  "group_words_to_sections h words =
     (case words of
        [] \<Rightarrow> Inr (h, [])
      | w0 # rest \<Rightarrow>
          (case group_loop h [] [w0] rest of
             Inl e \<Rightarrow> Inl e
           | Inr (h', sections, current_batch) \<Rightarrow>
               if current_batch \<noteq> []
               then (case create_validated_section h' current_batch of
                       Inl e \<Rightarrow> Inl e
                     | Inr (h'', sec) \<Rightarrow> Inr (h'', sections @ [sec]))
               else Inr (h', sections)))"

section \<open>FlorenceCoder: pitch shifting through the vocoder\<close>

text \<open>
  The five \<open>pyworld\<close> calls are an external library: they are parameters of the model,
  each of them may raise, and the spectral envelope and the aperiodicity are opaque
  (\<open>'sp\<close>, \<open>'ap\<close>).
\<close>

record ('sp, 'ap) PyWorld =
  dio :: "real list \<Rightarrow> int \<Rightarrow> real \<Rightarrow> error + (real list \<times> real list)"
  stonemask :: "real list \<Rightarrow> real list \<Rightarrow> real list \<Rightarrow> int \<Rightarrow> error + real list"
  cheaptrick :: "real list \<Rightarrow> real list \<Rightarrow> real list \<Rightarrow> int \<Rightarrow> error + 'sp"
  d4c :: "real list \<Rightarrow> real list \<Rightarrow> real list \<Rightarrow> int \<Rightarrow> error + 'ap"
  synthesize :: "real list \<Rightarrow> 'sp \<Rightarrow> 'ap \<Rightarrow> int \<Rightarrow> real \<Rightarrow> error + real list"

record FlorenceCoder =
  coder_context :: Context
  frame_period :: real

text \<open>
  Lines 88 to 103 of \<open>_shift_pitch\<close>: the mean of the voiced frames, the ratio, the
  scaled contour and \<open>np.where(modified_f0 > 0, np.clip(modified_f0, 50, 1600), 0)\<close>.
\<close>

definition np_mean :: "real list \<Rightarrow> real" where
  "np_mean xs = sum_list xs / real (length xs)"

definition np_clip :: "real \<Rightarrow> real \<Rightarrow> real \<Rightarrow> real" where
  "np_clip v lo hi = min hi (max v lo)"

definition modify_f0 :: "real list \<Rightarrow> real \<Rightarrow> real list" where
  "modify_f0 f0 target_freq =
     (let valid_f0 = filter (\<lambda>v. v > 0) f0;
          current_avg_f0 = np_mean valid_f0;
          pitch_ratio = target_freq / current_avg_f0;
          modified_f0 = map (\<lambda>v. v * pitch_ratio) f0
      in map (\<lambda>m. if m > 0 then np_clip m 50 1600 else 0) modified_f0)"

text \<open>Step 9 of \<open>_shift_pitch\<close>: cut or zero-pad \<open>y\<close> to the length of \<open>audio\<close>.\<close>

definition align_length :: "real list \<Rightarrow> nat \<Rightarrow> real list" where
  "align_length y n =
     (if length y \<noteq> n
      then (if length y > n then take n y else y @ replicate (n - length y) 0)
      else y)"

definition shift_pitch ::
  "('sp, 'ap) PyWorld \<Rightarrow> FlorenceCoder \<Rightarrow> real list \<Rightarrow> real \<Rightarrow> error + real list" where
  "shift_pitch pw self audio target_freq =
     (let sr = sample_rate (coder_context self); x = audio
      in case dio pw x sr (frame_period self) of
           Inl e \<Rightarrow> Inl e
         | Inr (f0_dio, t) \<Rightarrow>
      (case stonemask pw x f0_dio t sr of
           Inl e \<Rightarrow> Inl e
         | Inr f0 \<Rightarrow>
      (case cheaptrick pw x f0 t sr of
           Inl e \<Rightarrow> Inl e
         | Inr sp \<Rightarrow>
      (case d4c pw x f0 t sr of
           Inl e \<Rightarrow> Inl e
         | Inr ap \<Rightarrow>
             if length (filter (\<lambda>v. v > 0) f0) = 0 then Inr audio
             else (case synthesize pw (modify_f0 f0 target_freq) sp ap sr (frame_period self) of
                     Inl e \<Rightarrow> Inl e
                   | Inr y \<Rightarrow> Inr (align_length y (length audio)))))))"


section \<open>FlorenceWaveConnecter: overlap-add on a canvas\<close>

text \<open>
  \<open>int(x)\<close> on a float truncates towards zero; \<open>np.zeros\<close> and \<open>np.linspace\<close>
  reject a negative count; \<open>np.linspace(a, b, 1)\<close> is \<open>[a]\<close> and for two or more
  points the last one is exactly \<open>b\<close>.
\<close>

definition py_int :: "real \<Rightarrow> int" where
  "py_int x = (if x \<ge> 0 then \<lfloor>x\<rfloor> else \<lceil>x\<rceil>)"

definition np_zeros :: "int \<Rightarrow> error + real list" where
  "np_zeros n = (if n < 0 then Inl ValueError else Inr (replicate (nat n) 0))"

definition np_linspace :: "real \<Rightarrow> real \<Rightarrow> int \<Rightarrow> error + real list" where
  "np_linspace a b num =
     (if num < 0 then Inl ValueError
      else if num = 1 then Inr [a]
      else Inr (map (\<lambda>i. if i = nat num - 1 then b
                          else a + real i * ((b - a) / real (nat num - 1))) [0..<nat num]))"

text \<open>
  \<open>arr[lo:hi] op= v\<close> on a one-dimensional array: the bounds of a Python slice
  (a negative bound counts from the end, both are clamped to the array), and the
  in-place update, which needs \<open>v\<close> as long as the slice or of length one.
\<close>

definition slice_bounds :: "nat \<Rightarrow> int option \<Rightarrow> int option \<Rightarrow> nat \<times> nat" where
  "slice_bounds n lo hi =
     (let norm = (\<lambda>k. if k < 0 then max (k + int n) 0 else min k (int n));
          l = (case lo of None \<Rightarrow> 0 | Some k \<Rightarrow> nat (norm k));
          u = (case hi of None \<Rightarrow> n | Some k \<Rightarrow> nat (norm k))
      in (l, max l u))"

definition slice_update ::
  "(real \<Rightarrow> real \<Rightarrow> real) \<Rightarrow> real list \<Rightarrow> int option \<Rightarrow> int option \<Rightarrow> real list \<Rightarrow> error + real list" where
  "slice_update f arr lo hi v =
     (let (l, u) = slice_bounds (length arr) lo hi;
          seg = take (u - l) (drop l arr)
      in if length v = length seg then Inr (take l arr @ map2 f seg v @ drop u arr)
         else if length v = 1 then Inr (take l arr @ map (\<lambda>x. f x (hd v)) seg @ drop u arr)
         else Inl ValueError)"

text \<open>
  \<open>_apply_declick_envelope\<close>. Its first two statements compute \<open>fade_samples\<close>; when
  that is \<open>0\<close> the wave itself is returned, otherwise a copy is faded in and out.
\<close>

definition fade_samples_of :: "Context \<Rightarrow> real list \<Rightarrow> int" where
  "fade_samples_of ctx wave =
     (let fade_samples = py_int (0.005 * real_of_int (sample_rate ctx))
      in if int (length wave) < fade_samples * 2
         then int (length wave) div 2 else fade_samples)"

definition apply_declick_envelope :: "Context \<Rightarrow> real list \<Rightarrow> error + real list" where
  "apply_declick_envelope ctx wave =
     (let fade_samples = fade_samples_of ctx wave
      in if fade_samples = 0 then Inr wave
         else (case np_linspace 0 1 fade_samples of
                 Inl e \<Rightarrow> Inl e
               | Inr fade_in \<Rightarrow>
             (case np_linspace 1 0 fade_samples of
                 Inl e \<Rightarrow> Inl e
               | Inr fade_out \<Rightarrow>
             (case slice_update (*) wave None (Some fade_samples) fade_in of
                 Inl e \<Rightarrow> Inl e
               | Inr processed \<Rightarrow>
                 slice_update (*) processed (Some (- fade_samples)) None fade_out))))"

text \<open>
  The body of the loop of \<open>_connect_section\<close> is \<open>place_word\<close>; \<open>connect_words\<close>
  is the loop, with the canvas as its state.
\<close>

definition source_wave :: "Word \<Rightarrow> real list option" where
  "source_wave word = (if pitchedWave word \<noteq> None then pitchedWave word else oriWave word)"

definition start_idx :: "Context \<Rightarrow> real \<Rightarrow> Word \<Rightarrow> int" where
  "start_idx ctx base_time word =
     (let relative_start_time = start (time word) - base_time
      in py_int (relative_start_time * real_of_int (sample_rate ctx)))"

definition grow_canvas :: "real list \<Rightarrow> int \<Rightarrow> real list" where
  "grow_canvas canvas end_idx =
     (if end_idx > int (length canvas)
      then canvas @ replicate (nat (end_idx - int (length canvas))) 0
      else canvas)"

definition place_word :: "Context \<Rightarrow> real \<Rightarrow> real list \<Rightarrow> Word \<Rightarrow> error + real list" where
  "place_word ctx base_time canvas word =
     (case source_wave word of
        None \<Rightarrow> Inr canvas
      | Some src \<Rightarrow>
          if length src = 0 then Inr canvas
          else (let s = start_idx ctx base_time word;
                    end_idx = s + int (length src);
                    canvas = grow_canvas canvas end_idx
                in case apply_declick_envelope ctx src of
                     Inl e \<Rightarrow> Inl e
                   | Inr processed_wave \<Rightarrow>
                       slice_update (+) canvas (Some s) (Some end_idx) processed_wave))"

text \<open>
  The offset again, with the rounding of the two float operations written out:
  \<open>fl\<close> is the rounding of the float type, applied to the difference and to the
  product before \<open>int()\<close> truncates. \<open>binary64\<close> is that rounding for Python's
  floats: to the nearest number with a 53-bit significand, ties to the even one
  (overflow and subnormal numbers, far from the times of a score, are left out).
  \<open>place_word_fl\<close> is the loop body with this offset; with the identity for \<open>fl\<close> it
  is \<open>place_word\<close>.
\<close>

definition round_half_even :: "real \<Rightarrow> int" where
  "round_half_even x =
     (let f = \<lfloor>x\<rfloor>
      in if x - of_int f < 1/2 then f
         else if 1/2 < x - of_int f then f + 1
         else if even f then f else f + 1)"

definition binary64 :: "real \<Rightarrow> real" where
  "binary64 x =
     (if x = 0 then 0
      else (let ulp = 2 powr (of_int (\<lfloor>log 2 \<bar>x\<bar>\<rfloor> - 52))
            in of_int (round_half_even (x / ulp)) * ulp))"

definition start_idx_fl :: "(real \<Rightarrow> real) \<Rightarrow> Context \<Rightarrow> real \<Rightarrow> Word \<Rightarrow> int" where
  "start_idx_fl fl ctx base_time word =
     (let relative_start_time = fl (start (time word) - base_time)
      in py_int (fl (relative_start_time * real_of_int (sample_rate ctx))))"

definition place_word_fl ::
  "(real \<Rightarrow> real) \<Rightarrow> Context \<Rightarrow> real \<Rightarrow> real list \<Rightarrow> Word \<Rightarrow> error + real list" where
  "place_word_fl fl ctx base_time canvas word =
     (case source_wave word of
        None \<Rightarrow> Inr canvas
      | Some src \<Rightarrow>
          if length src = 0 then Inr canvas
          else (let s = start_idx_fl fl ctx base_time word;
                    end_idx = s + int (length src);
                    canvas = grow_canvas canvas end_idx
                in case apply_declick_envelope ctx src of
                     Inl e \<Rightarrow> Inl e
                   | Inr processed_wave \<Rightarrow>
                       slice_update (+) canvas (Some s) (Some end_idx) processed_wave))"

fun connect_words :: "Context \<Rightarrow> store \<Rightarrow> real \<Rightarrow> real list \<Rightarrow> ref list \<Rightarrow> error + real list" where
  "connect_words ctx h base_time canvas [] = Inr canvas"
| "connect_words ctx h base_time canvas (word # rest) =
     (case place_word ctx base_time canvas (h word) of
        Inl e \<Rightarrow> Inl e
      | Inr canvas' \<Rightarrow> connect_words ctx h base_time canvas' rest)"

definition connect_section :: "Context \<Rightarrow> store \<Rightarrow> Section \<Rightarrow> error + Section" where
  "connect_section ctx h section =
     (if wordList section = [] then Inr section
      else (let base_time = start (time (h (hd (wordList section))));
                end_time = end' (time (h (last (wordList section))));
                duration = end_time - base_time + 0.5;
                total_samples = py_int (duration * real_of_int (sample_rate ctx))
            in case np_zeros total_samples of
                 Inl e \<Rightarrow> Inl e
               | Inr canvas \<Rightarrow>
                   (case connect_words ctx h base_time canvas (wordList section) of
                      Inl e \<Rightarrow> Inl e
                    | Inr canvas' \<Rightarrow> Inr (section\<lparr>sectionSrc := Some canvas'\<rparr>))))"

section \<open>FlorenceEngine: the pipeline\<close>

text \<open>
  Each module is modelled by the one method the engine calls on it. An attribute that
  \<open>__init__\<close> never assigns is \<open>None\<close>, and reading it raises \<open>AttributeError\<close>.
  \<open>__init__\<close> assigns \<open>decoder\<close> and \<open>speech_generator\<close> only: the three other
  assignments are commented out in the source. The behaviour of the decoder on a file
  and of the text-to-speech engine are parameters, and so is \<open>os.path.exists\<close>.
\<close>

record 'song FlorenceEngine =
  decoder :: "string \<Rightarrow> error + 'song"
  speech_generator :: "'song \<Rightarrow> error + 'song"
  coder :: "('song \<Rightarrow> error + 'song) option"
  wave_connector :: "('song \<Rightarrow> error + 'song) option"
  output_generator :: "('song \<Rightarrow> error + string) option"

definition init_engine ::
  "(string \<Rightarrow> error + 'song) \<Rightarrow> ('song \<Rightarrow> error + 'song) \<Rightarrow> 'song FlorenceEngine" where
  "init_engine decode_score generate_song_speech =
     \<lparr>decoder = decode_score, speech_generator = generate_song_speech,
      coder = None, wave_connector = None, output_generator = None\<rparr>"

definition wrap_stage :: "stage \<Rightarrow> error + 'a \<Rightarrow> error + 'a" where
  "wrap_stage st r = (case r of Inl e \<Rightarrow> Inl (StageFailed st e) | Inr v \<Rightarrow> Inr v)"

definition call_attr :: "('a \<Rightarrow> error + 'b) option \<Rightarrow> 'a \<Rightarrow> error + 'b" where
  "call_attr m x = (case m of None \<Rightarrow> Inl AttributeError | Some f \<Rightarrow> f x)"

definition decode_score :: "'song FlorenceEngine \<Rightarrow> string \<Rightarrow> error + 'song" where
  "decode_score self score_path = decoder self score_path"

definition generate_speech :: "'song FlorenceEngine \<Rightarrow> 'song \<Rightarrow> error + 'song" where
  "generate_speech self song = speech_generator self song"

definition adjust_pitch :: "'song FlorenceEngine \<Rightarrow> 'song \<Rightarrow> error + 'song" where
  "adjust_pitch self song = wrap_stage AdjustPitch (call_attr (coder self) song)"

definition smooth_connect :: "'song FlorenceEngine \<Rightarrow> 'song \<Rightarrow> error + 'song" where
  "smooth_connect self song = wrap_stage SmoothConnect (call_attr (wave_connector self) song)"

definition generate_output :: "'song FlorenceEngine \<Rightarrow> 'song \<Rightarrow> error + string" where
  "generate_output self song = wrap_stage GenerateOutput (call_attr (output_generator self) song)"

definition process_score ::
  "'song FlorenceEngine \<Rightarrow> (string \<Rightarrow> bool) \<Rightarrow> string \<Rightarrow> error + string" where
  "process_score self path_exists score_path =
     (if \<not> path_exists score_path then Inl FileNotFoundError
      else (case decode_score self score_path of
              Inl e \<Rightarrow> Inl e
            | Inr song1 \<Rightarrow>
          (case generate_speech self song1 of
              Inl e \<Rightarrow> Inl e
            | Inr song2 \<Rightarrow>
          (case adjust_pitch self song2 of
              Inl e \<Rightarrow> Inl e
            | Inr song3 \<Rightarrow>
          (case smooth_connect self song3 of
              Inl e \<Rightarrow> Inl e
            | Inr song4 \<Rightarrow> generate_output self song4)))))"

section \<open>Vocabulary of the properties\<close>

text \<open>
  The two tolerance tests of the grouping step, named after the specification:
  two consecutive notes overlap when \<open>prev.end - next.start > TIME_TOLERANCE\<close>, and a
  new section starts when \<open>next.start - prev.end > TIME_TOLERANCE\<close>.
\<close>

definition is_overlapping :: "store \<Rightarrow> ref \<Rightarrow> ref \<Rightarrow> bool" where
  "is_overlapping h prev nxt \<longleftrightarrow> end' (time (h prev)) - start (time (h nxt)) > TIME_TOLERANCE"

definition is_break :: "store \<Rightarrow> ref \<Rightarrow> ref \<Rightarrow> bool" where
  "is_break h prev nxt \<longleftrightarrow> start (time (h nxt)) - end' (time (h prev)) > TIME_TOLERANCE"

fun has_overlap :: "store \<Rightarrow> ref list \<Rightarrow> bool" where
  "has_overlap h (a # b # rest) = (is_overlapping h a b \<or> has_overlap h (b # rest))"
| "has_overlap h ws = False"

fun has_break :: "store \<Rightarrow> ref list \<Rightarrow> bool" where
  "has_break h (a # b # rest) = (is_break h a b \<or> has_break h (b # rest))"
| "has_break h ws = False"

text \<open>
  The specification's view of the grouping step: cut the sequence into maximal runs
  of continuous notes (\<open>split_runs\<close>), then validate and normalise each run in turn
  (\<open>process_runs\<close>). The loop of the source is shown to compute exactly this.
\<close>

fun split_runs :: "store \<Rightarrow> ref list \<Rightarrow> ref list list" where
  "split_runs h [] = []"
| "split_runs h [a] = [[a]]"
| "split_runs h (a # b # rest) =
     (if is_break h a b then [a] # split_runs h (b # rest)
      else (case split_runs h (b # rest) of [] \<Rightarrow> [[a]] | p # ps \<Rightarrow> (a # p) # ps))"

fun process_runs :: "store \<Rightarrow> Section list \<Rightarrow> ref list list \<Rightarrow> error + (store \<times> Section list)" where
  "process_runs h secs [] = Inr (h, secs)"
| "process_runs h secs (r # rs) =
     (case create_validated_section h r of
        Inl e \<Rightarrow> Inl e
      | Inr (h', sec) \<Rightarrow> process_runs h' (secs @ [sec]) rs)"

definition glue :: "ref list \<Rightarrow> ref list list \<Rightarrow> ref list list" where
  "glue batch runs = (case runs of [] \<Rightarrow> [batch] | p # ps \<Rightarrow> (butlast batch @ p) # ps)"

definition finish ::
  "error + (store \<times> Section list \<times> ref list) \<Rightarrow> error + (store \<times> Section list)" where
  "finish x =
     (case x of
        Inl e \<Rightarrow> Inl e
      | Inr (h', sections, current_batch) \<Rightarrow>
          if current_batch \<noteq> []
          then (case create_validated_section h' current_batch of
                  Inl e \<Rightarrow> Inl e
                | Inr (h'', sec) \<Rightarrow> Inr (h'', sections @ [sec]))
          else Inr (h', sections))"

fun separated :: "store \<Rightarrow> ref list list \<Rightarrow> bool" where
  "separated h [] = True"
| "separated h [r] = (r \<noteq> [])"
| "separated h (r # q # rs) =
     (r \<noteq> [] \<and> q \<noteq> [] \<and> is_break h (last r) (hd q) \<and> separated h (q # rs))"

definition normalized :: "store \<Rightarrow> store \<Rightarrow> ref list \<Rightarrow> bool" where
  "normalized h h' r \<longleftrightarrow>
     (\<forall>i. Suc i < length r \<longrightarrow> end' (time (h' (r ! i))) = start (time (h (r ! Suc i)))) \<and>
     h' (last r) = h (last r)"

text \<open>
  \<open>phrase_index ps k\<close> is the index of the phrase that holds position \<open>k\<close> of the
  concatenation of the phrases \<open>ps\<close>.
\<close>

fun phrase_index :: "'a list list \<Rightarrow> nat \<Rightarrow> nat" where
  "phrase_index [] k = 0"
| "phrase_index (p # ps) k = (if k < length p then 0 else Suc (phrase_index ps (k - length p)))"

section \<open>Example scores\<close>

definition mk_word :: "real \<Rightarrow> real \<Rightarrow> Word" where
  "mk_word s e = \<lparr>pitch = Some 440, time = \<lparr>start = s, end' = e\<rparr>, lrc = ''la'',
                  oriWave = None, pitchedWave = None\<rparr>"

definition store_of :: "Word list \<Rightarrow> store" where
  "store_of ws = (\<lambda>a. if a < length ws then ws ! a else mk_word 0 0)"

text \<open>Two notes a tenth of a picosecond apart, then a third one a second later.\<close>

definition micro_gap_store :: store where
  "micro_gap_store = store_of [mk_word 0 (1/2), mk_word (1/2 + 1 / 10 ^ 13) 1, mk_word 2 3]"

text \<open>A note alone, then two notes that overlap by half a second.\<close>

definition overlap_store :: store where
  "overlap_store = store_of [mk_word 0 1, mk_word 2 3, mk_word (5/2) 4]"

text \<open>A vocoder stub with a four-frame contour, one frame unvoiced, and a word to shift.\<close>

definition demo_pyworld :: "(unit, unit) PyWorld" where
  "demo_pyworld =
     \<lparr>dio = (\<lambda>x sr fp. Inr ([0, 100, 120, 1000], [0, 5 / 1000, 10 / 1000, 15 / 1000])),
      stonemask = (\<lambda>x f0 t sr. Inr f0),
      cheaptrick = (\<lambda>x f0 t sr. Inr ()),
      d4c = (\<lambda>x f0 t sr. Inr ()),
      synthesize = (\<lambda>f0 sp ap sr fp. Inr (map (\<lambda>v. v / 1600) f0))\<rparr>"

definition demo_coder :: FlorenceCoder where
  "demo_coder = \<lparr>coder_context = \<lparr>sample_rate = 22050, isDebug = False\<rparr>, frame_period = 5\<rparr>"


text \<open>
  The containers of the data model: a track is a list of sections, a song a list of
  tracks with a name.
\<close>

record Track =
  sectionList :: "Section list"

record Song =
  trackList :: "Track list"
  name :: string

text \<open>
  A section of two notes at four samples per second: the first note has both waves,
  the second starts at \<open>7/16\<close> seconds, that is \<open>1.75\<close> samples, and its wave
  reaches past the initial canvas.
\<close>

definition demo_context :: Context where
  "demo_context = \<lparr>sample_rate = 4, isDebug = False\<rparr>"

definition demo_store :: store where
  "demo_store = store_of
     [(mk_word 0 (7/16))\<lparr>oriWave := Some [5, 5], pitchedWave := Some [1]\<rparr>,
      (mk_word (7/16) (1/2))\<lparr>oriWave := Some [2, 2, 2, 2]\<rparr>]"

definition demo_section :: Section where
  "demo_section = \<lparr>wordList = [0, 1], sectionStart = 0, sectionSrc = None\<rparr>"

definition demo_song :: Song where
  "demo_song = \<lparr>trackList = [\<lparr>sectionList = [demo_section]\<rparr>], name = ''score''\<rparr>"

text \<open>The context that the engine builds by default.\<close>

definition default_context :: Context where
  "default_context = \<lparr>sample_rate = 22050, isDebug = True\<rparr>"

text \<open>
  The floats \<open>0.76\<close> and \<open>0.06\<close>, exactly, and a note that starts at the first of them.
\<close>

definition double_076 :: real where "double_076 = 3422735716801577 / 2 ^ 52"
definition double_006 :: real where "double_006 = 1080863910568919 / 2 ^ 54"

definition late_word :: Word where
  "late_word = (mk_word double_076 1)\<lparr>oriWave := Some [1]\<rparr>"

section \<open>The grouping step: lemmas\<close>

lemma TIME_TOLERANCE_pos: "0 < TIME_TOLERANCE"
  by (simp add: TIME_TOLERANCE_def)

lemma break_not_overlapping: "is_break h a b \<Longrightarrow> \<not> is_overlapping h a b"
  using TIME_TOLERANCE_pos by (simp add: is_break_def is_overlapping_def)

lemma set_end_start [simp]: "start (time (set_end h a v b)) = start (time (h b))"
  by (simp add: set_end_def)

lemma set_end_other [simp]: "b \<noteq> a \<Longrightarrow> set_end h a v b = h b"
  by (simp add: set_end_def)

lemma set_end_same [simp]: "end' (time (set_end h a v a)) = v"
  by (simp add: set_end_def)

lemma normalnize_time_start [simp]:
  "start (time (normalnize_time h ws a)) = start (time (h a))"
  by (induction h ws rule: normalnize_time.induct) simp_all

lemma normalnize_time_other:
  "a \<notin> set (butlast ws) \<Longrightarrow> normalnize_time h ws a = h a"
  by (induction h ws rule: normalnize_time.induct) (simp_all split: if_splits)

lemma normalnize_time_adjacent:
  "distinct ws \<Longrightarrow> Suc i < length ws \<Longrightarrow>
   end' (time (normalnize_time h ws (ws ! i))) = start (time (h (ws ! Suc i)))"
proof (induction h ws arbitrary: i rule: normalnize_time.induct)
  case (1 h a b rest)
  show ?case
  proof (cases i)
    case 0
    have "a \<notin> set (butlast (b # rest))" using "1.prems"(1) by (auto dest: in_set_butlastD)
    then have "normalnize_time (set_end h a (start (time (h b)))) (b # rest) a
               = set_end h a (start (time (h b))) a"
      by (rule normalnize_time_other)
    then show ?thesis using 0 by simp
  next
    case (Suc j)
    then show ?thesis using "1.prems" "1.IH"[of j] by simp
  qed
qed simp_all

lemma has_overlap_nth:
  "has_overlap h ws \<longleftrightarrow> (\<exists>i. Suc i < length ws \<and> is_overlapping h (ws ! i) (ws ! Suc i))"
proof (induction h ws rule: has_overlap.induct)
  case (1 h a b rest)
  have "(\<exists>i. Suc i < length (a # b # rest) \<and> is_overlapping h ((a # b # rest) ! i) ((a # b # rest) ! Suc i))
        \<longleftrightarrow> is_overlapping h a b \<or> (\<exists>i. Suc i < length (b # rest) \<and> is_overlapping h ((b # rest) ! i) ((b # rest) ! Suc i))"
    (is "?L \<longleftrightarrow> ?R")
  proof
    assume ?L
    then obtain i where i: "Suc i < length (a # b # rest)"
      "is_overlapping h ((a # b # rest) ! i) ((a # b # rest) ! Suc i)" by blast
    show ?R
    proof (cases i)
      case 0 then show ?thesis using i by simp
    next
      case (Suc j) then show ?thesis using i by auto
    qed
  next
    assume ?R
    then show ?L
    proof
      assume "is_overlapping h a b"
      then show ?L by (intro exI[of _ 0]) simp
    next
      assume "\<exists>i. Suc i < length (b # rest) \<and> is_overlapping h ((b # rest) ! i) ((b # rest) ! Suc i)"
      then obtain i where "Suc i < length (b # rest)" "is_overlapping h ((b # rest) ! i) ((b # rest) ! Suc i)" by blast
      then show ?L by (intro exI[of _ "Suc i"]) simp
    qed
  qed
  with 1 show ?case by simp
qed simp_all

lemma check_overlap_from_ok:
  "check_overlap_from h i ws = Inr () \<longleftrightarrow> \<not> has_overlap h ws"
  by (induction h i ws rule: check_overlap_from.induct)
     (simp_all add: is_overlapping_def Let_def)

lemma check_overlap_from_error:
  "check_overlap_from h i ws = Inl e \<Longrightarrow>
   \<exists>j. Suc j < length ws \<and>
       e = OverlapError (i + j) (end' (time (h (ws ! j)))) (start (time (h (ws ! Suc j)))) \<and>
       is_overlapping h (ws ! j) (ws ! Suc j) \<and>
       (\<forall>k<j. \<not> is_overlapping h (ws ! k) (ws ! Suc k))"
proof (induction h i ws rule: check_overlap_from.induct)
  case (1 h i a b rest)
  show ?case
  proof (cases "is_overlapping h a b")
    case True
    then have "e = OverlapError i (end' (time (h a))) (start (time (h b)))"
      using "1.prems" by (simp add: is_overlapping_def)
    with True show ?thesis by (intro exI[of _ 0]) simp
  next
    case False
    then have "check_overlap_from h (Suc i) (b # rest) = Inl e"
      using "1.prems" by (simp add: is_overlapping_def)
    from "1.IH"[OF refl _ this] False
    obtain j where j: "Suc j < length (b # rest)"
      "e = OverlapError (Suc i + j) (end' (time (h ((b # rest) ! j)))) (start (time (h ((b # rest) ! Suc j))))"
      "is_overlapping h ((b # rest) ! j) ((b # rest) ! Suc j)"
      "\<forall>k<j. \<not> is_overlapping h ((b # rest) ! k) ((b # rest) ! Suc k)"
      by (auto simp: is_overlapping_def)
    have "\<forall>k<Suc j. \<not> is_overlapping h ((a # b # rest) ! k) ((a # b # rest) ! Suc k)"
    proof (intro allI impI)
      fix k assume "k < Suc j"
      then show "\<not> is_overlapping h ((a # b # rest) ! k) ((a # b # rest) ! Suc k)"
        using False j(4) by (cases k) auto
    qed
    with j show ?thesis by (intro exI[of _ "Suc j"]) simp
  qed
qed simp_all

lemma split_runs_Cons: "\<exists>p ps. split_runs h (x # xs) = (x # p) # ps"
proof (induction xs arbitrary: x)
  case Nil
  then show ?case by simp
next
  case (Cons y ys)
  from Cons[of y] obtain p ps where "split_runs h (y # ys) = (y # p) # ps" by blast
  then show ?case by simp
qed

lemma split_runs_cong:
  "(\<forall>a\<in>set ws. h' a = h a) \<Longrightarrow> split_runs h' ws = split_runs h ws"
  by (induction h ws rule: split_runs.induct) (simp_all add: is_break_def)

lemma concat_split_runs: "concat (split_runs h ws) = ws"
proof (induction h ws rule: split_runs.induct)
  case (3 h a b rest)
  obtain p ps where "split_runs h (b # rest) = (b # p) # ps"
    using split_runs_Cons by blast
  with 3 show ?case by (auto split: if_splits)
qed simp_all

lemma split_runs_nonempty: "[] \<notin> set (split_runs h ws)"
proof (induction h ws rule: split_runs.induct)
  case (3 h a b rest)
  obtain p ps where "split_runs h (b # rest) = (b # p) # ps"
    using split_runs_Cons by blast
  with 3 show ?case by (auto split: if_splits)
qed simp_all

lemma create_validated_section_Inr:
  "create_validated_section h r = Inr (h', sec) \<longleftrightarrow>
   r \<noteq> [] \<and> \<not> has_overlap h r \<and> h' = normalnize_time h r \<and>
   sec = \<lparr>wordList = r, sectionStart = start (time (h (hd r))), sectionSrc = None\<rparr>"
proof (cases "check_overlap_from h 0 r")
  case (Inl e)
  then have "has_overlap h r" using check_overlap_from_ok[of h 0 r] by auto
  with Inl show ?thesis by (simp add: create_validated_section_def check_overlap_def)
next
  case (Inr u)
  then have "\<not> has_overlap h r" using check_overlap_from_ok[of h 0 r] by auto
  with Inr show ?thesis
    by (cases r) (auto simp: create_validated_section_def check_overlap_def Let_def)
qed

lemma create_validated_section_Inl:
  "create_validated_section h r = Inl e \<longleftrightarrow>
   (r = [] \<and> e = IndexError) \<or> check_overlap_from h 0 r = Inl e"
  by (cases r; cases "check_overlap_from h 0 r")
     (auto simp: create_validated_section_def check_overlap_def Let_def)

lemma group_loop_batch_nonempty:
  "group_loop h secs batch rest = Inr (h', secs', batch') \<Longrightarrow> batch \<noteq> [] \<Longrightarrow> batch' \<noteq> []"
proof (induction rest arbitrary: h secs batch)
  case Nil
  then show ?case by simp
next
  case (Cons cw rest)
  then show ?case
    by (cases batch) (auto simp: Let_def split: if_splits sum.splits)
qed

lemma group_loop_runs:
  "distinct (batch @ rest) \<Longrightarrow> batch \<noteq> [] \<Longrightarrow>
   finish (group_loop h secs batch rest) =
   process_runs h secs (glue batch (split_runs h (last batch # rest)))"
proof (induction rest arbitrary: h secs batch)
  case Nil
  then show ?case
    by (simp add: finish_def glue_def split: sum.splits)
next
  case (Cons cw rest)
  obtain b bs where batch: "batch = b # bs" using Cons.prems(2) by (cases batch) auto
  obtain p ps where sr: "split_runs h (cw # rest) = (cw # p) # ps"
    using split_runs_Cons by blast
  show ?case
  proof (cases "is_break h (last batch) cw")
    case True
    have rhs: "glue batch (split_runs h (last batch # cw # rest)) = batch # split_runs h (cw # rest)"
      using True Cons.prems(2) by (simp add: glue_def)
    show ?thesis
    proof (cases "create_validated_section h batch")
      case (Inl e)
      then show ?thesis using True rhs batch
        by (simp add: finish_def is_break_def Let_def)
    next
      case (Inr hs)
      obtain h1 sec where hs: "hs = (h1, sec)" by (cases hs)
      have h1: "h1 = normalnize_time h batch"
        using Inr hs create_validated_section_Inr by simp
      have "\<forall>a\<in>set (cw # rest). h1 a = h a"
      proof
        fix a assume "a \<in> set (cw # rest)"
        then have "a \<notin> set batch" using Cons.prems(1) by auto
        then have "a \<notin> set (butlast batch)" by (auto dest: in_set_butlastD)
        then show "h1 a = h a" unfolding h1 by (rule normalnize_time_other)
      qed
      then have cong: "split_runs h1 (cw # rest) = split_runs h (cw # rest)"
        by (rule split_runs_cong)
      have "distinct ([cw] @ rest)" using Cons.prems(1) by simp
      from Cons.IH[OF this, of h1 "secs @ [sec]"]
      have "finish (group_loop h1 (secs @ [sec]) [cw] rest) =
            process_runs h1 (secs @ [sec]) (split_runs h (cw # rest))"
        using cong sr by (simp add: glue_def)
      then show ?thesis using True rhs batch Inr hs
        by (simp add: is_break_def Let_def)
    qed
  next
    case False
    have rhs: "glue batch (split_runs h (last batch # cw # rest)) = (batch @ cw # p) # ps"
      using False sr Cons.prems(2) by (simp add: glue_def)
    have "distinct ((batch @ [cw]) @ rest)" using Cons.prems(1) by simp
    from Cons.IH[OF this, of h secs]
    have "finish (group_loop h secs (batch @ [cw]) rest) =
          process_runs h secs ((batch @ cw # p) # ps)"
      using sr by (simp add: glue_def butlast_append)
    then show ?thesis using False rhs batch
      by (simp add: is_break_def Let_def)
  qed
qed

lemma group_words_to_sections_runs:
  "distinct ws \<Longrightarrow> group_words_to_sections h ws = process_runs h [] (split_runs h ws)"
proof (cases ws)
  case Nil
  then show ?thesis by (simp add: group_words_to_sections_def)
next
  case (Cons w0 rest)
  assume "distinct ws"
  then have "distinct ([w0] @ rest)" using Cons by simp
  from group_loop_runs[OF this, of h "[]"]
  have "finish (group_loop h [] [w0] rest) = process_runs h [] (glue [w0] (split_runs h (w0 # rest)))"
    by simp
  moreover obtain p ps where "split_runs h (w0 # rest) = (w0 # p) # ps"
    using split_runs_Cons by blast
  ultimately show ?thesis using Cons
    by (simp add: group_words_to_sections_def finish_def glue_def)
qed

lemma phrase_index_split_runs:
  "Suc i < length ws \<Longrightarrow>
   phrase_index (split_runs h ws) (Suc i) =
   phrase_index (split_runs h ws) i + (if is_break h (ws ! i) (ws ! Suc i) then 1 else 0)"
proof (induction h ws arbitrary: i rule: split_runs.induct)
  case (3 h a b rest)
  obtain p ps where sr: "split_runs h (b # rest) = (b # p) # ps"
    using split_runs_Cons by blast
  show ?case
  proof (cases "is_break h a b")
    case True
    have shift: "phrase_index (split_runs h (a # b # rest)) (Suc k) =
                 Suc (phrase_index (split_runs h (b # rest)) k)" for k
      using True by simp
    have zero: "phrase_index (split_runs h (a # b # rest)) 0 = 0"
      using True by simp
    show ?thesis
    proof (cases i)
      case 0
      show ?thesis unfolding 0 shift zero using True sr by simp
    next
      case (Suc j)
      then have j: "Suc j < length (b # rest)" using "3.prems" by simp
      from "3.IH"(1)[OF True j] show ?thesis unfolding Suc shift by simp
    qed
  next
    case False
    have shift: "phrase_index (split_runs h (a # b # rest)) (Suc k) =
                 phrase_index (split_runs h (b # rest)) k" for k
      using False sr by simp
    have zero: "phrase_index (split_runs h (a # b # rest)) 0 = 0"
      using False sr by simp
    show ?thesis
    proof (cases i)
      case 0
      show ?thesis unfolding 0 shift zero using False sr by simp
    next
      case (Suc j)
      then have j: "Suc j < length (b # rest)" using "3.prems" by simp
      from "3.IH"(2)[OF False j] show ?thesis unfolding Suc shift by simp
    qed
  qed
qed simp_all

lemma process_runs_nonempty:
  "process_runs h secs runs = Inr (h', secs') \<Longrightarrow> [] \<notin> set runs"
proof (induction runs arbitrary: h secs)
  case Nil
  then show ?case by simp
next
  case (Cons r rs)
  then obtain h1 sec where c: "create_validated_section h r = Inr (h1, sec)"
    and p: "process_runs h1 (secs @ [sec]) rs = Inr (h', secs')"
    by (auto split: sum.splits)
  from c have "r \<noteq> []" by (simp add: create_validated_section_Inr)
  with Cons.IH[OF p] show ?case by auto
qed

lemma process_runs_wordLists:
  "process_runs h secs runs = Inr (h', secs') \<Longrightarrow> map wordList secs' = map wordList secs @ runs"
proof (induction runs arbitrary: h secs)
  case Nil
  then show ?case by simp
next
  case (Cons r rs)
  then obtain h1 sec where c: "create_validated_section h r = Inr (h1, sec)"
    and p: "process_runs h1 (secs @ [sec]) rs = Inr (h', secs')"
    by (auto split: sum.splits)
  from c have "wordList sec = r" by (simp add: create_validated_section_Inr)
  with Cons.IH[OF p] show ?case by simp
qed

lemma process_runs_start:
  "process_runs h secs runs = Inr (h', secs') \<Longrightarrow> start (time (h' a)) = start (time (h a))"
proof (induction runs arbitrary: h secs)
  case Nil
  then show ?case by simp
next
  case (Cons r rs)
  then obtain h1 sec where c: "create_validated_section h r = Inr (h1, sec)"
    and p: "process_runs h1 (secs @ [sec]) rs = Inr (h', secs')"
    by (auto split: sum.splits)
  from c have "h1 = normalnize_time h r" by (simp add: create_validated_section_Inr)
  with Cons.IH[OF p] show ?case by simp
qed

lemma process_runs_store:
  "process_runs h secs runs = Inr (h', secs') \<Longrightarrow> distinct (concat runs) \<Longrightarrow>
   (\<forall>a. a \<notin> set (concat runs) \<longrightarrow> h' a = h a) \<and> (\<forall>r\<in>set runs. normalized h h' r)"
proof (induction runs arbitrary: h secs)
  case Nil
  then show ?case by simp
next
  case (Cons r rs)
  then obtain h1 sec where c: "create_validated_section h r = Inr (h1, sec)"
    and p: "process_runs h1 (secs @ [sec]) rs = Inr (h', secs')"
    by (auto split: sum.splits)
  from c have h1: "h1 = normalnize_time h r" and rne: "r \<noteq> []"
    by (simp_all add: create_validated_section_Inr)
  have dr: "distinct r" and drs: "distinct (concat rs)"
    and disj: "set r \<inter> set (concat rs) = {}"
    using Cons.prems(2) by auto
  from Cons.IH[OF p drs]
  have out: "\<And>a. a \<notin> set (concat rs) \<Longrightarrow> h' a = h1 a"
    and inn: "\<And>q. q \<in> set rs \<Longrightarrow> normalized h1 h' q" by auto
  have h1_out: "\<And>a. a \<notin> set (butlast r) \<Longrightarrow> h1 a = h a"
    unfolding h1 by (rule normalnize_time_other)
  have A: "\<forall>a. a \<notin> set (concat (r # rs)) \<longrightarrow> h' a = h a"
  proof (intro allI impI)
    fix a assume a: "a \<notin> set (concat (r # rs))"
    then have "a \<notin> set (butlast r)" by (auto dest: in_set_butlastD)
    with a show "h' a = h a" using out[of a] h1_out[of a] by simp
  qed
  have B: "normalized h h' r"
    unfolding normalized_def
  proof (intro conjI allI impI)
    fix i assume i: "Suc i < length r"
    then have "r ! i \<in> set r" by simp
    then have "r ! i \<notin> set (concat rs)" using disj by blast
    then have "h' (r ! i) = h1 (r ! i)" by (rule out)
    then show "end' (time (h' (r ! i))) = start (time (h (r ! Suc i)))"
      using normalnize_time_adjacent[OF dr i, of h] h1 by simp
  next
    have "last r \<in> set r" using rne by simp
    then have "last r \<notin> set (concat rs)" using disj by blast
    then have 1: "h' (last r) = h1 (last r)" by (rule out)
    have "last r \<notin> set (butlast r)" using dr rne
      by (metis append_butlast_last_id distinct_butlast not_distinct_conv_prefix)
    then show "h' (last r) = h (last r)" using 1 h1_out by simp
  qed
  have C: "\<forall>q\<in>set rs. normalized h h' q"
  proof
    fix q assume q: "q \<in> set rs"
    then have sub: "set q \<subseteq> set (concat rs)" by auto
    from inn[OF q] have n: "normalized h1 h' q" .
    show "normalized h h' q"
      unfolding normalized_def
    proof (intro conjI allI impI)
      fix i assume "Suc i < length q"
      then show "end' (time (h' (q ! i))) = start (time (h (q ! Suc i)))"
        using n h1 by (simp add: normalized_def)
    next
      show "h' (last q) = h (last q)"
      proof -
        have "q \<noteq> []" using process_runs_nonempty[OF p] q by auto
        then have "last q \<in> set q" by simp
        then have "last q \<in> set (concat rs)" using sub by blast
        then have "last q \<notin> set r" using disj by blast
        then have "last q \<notin> set (butlast r)" by (auto dest: in_set_butlastD)
        then show ?thesis using n h1_out by (simp add: normalized_def)
      qed
    qed
  qed
  from A B C show ?case by simp
qed

lemma separated_split_runs: "separated h (split_runs h ws)"
proof (induction h ws rule: split_runs.induct)
  case (3 h a b rest)
  obtain p ps where sr: "split_runs h (b # rest) = (b # p) # ps"
    using split_runs_Cons by blast
  show ?case
  proof (cases "is_break h a b")
    case True
    with 3 sr show ?thesis by simp
  next
    case False
    with 3 sr show ?thesis by (cases ps) simp_all
  qed
qed simp_all

lemma no_break_split_runs: "r \<in> set (split_runs h ws) \<Longrightarrow> \<not> has_break h r"
proof (induction h ws arbitrary: r rule: split_runs.induct)
  case (3 h a b rest)
  obtain p ps where sr: "split_runs h (b # rest) = (b # p) # ps"
    using split_runs_Cons by blast
  show ?case
  proof (cases "is_break h a b")
    case True
    with 3 show ?thesis by auto
  next
    case False
    have "\<not> has_break h (b # p)" using "3.IH"(2)[OF False, of "b # p"] sr by simp
    then have "\<not> has_break h (a # b # p)" using False by simp
    moreover have "r = a # b # p \<or> r \<in> set (split_runs h (b # rest))"
      using "3.prems" False sr by auto
    ultimately show ?thesis using "3.IH"(2)[OF False] by blast
  qed
qed simp_all

lemma has_break_nth:
  "has_break h ws \<longleftrightarrow> (\<exists>i. Suc i < length ws \<and> is_break h (ws ! i) (ws ! Suc i))"
proof (induction h ws rule: has_break.induct)
  case (1 h a b rest)
  have "(\<exists>i. Suc i < length (a # b # rest) \<and> is_break h ((a # b # rest) ! i) ((a # b # rest) ! Suc i))
        \<longleftrightarrow> is_break h a b \<or> (\<exists>i. Suc i < length (b # rest) \<and> is_break h ((b # rest) ! i) ((b # rest) ! Suc i))"
    (is "?L \<longleftrightarrow> ?R")
  proof
    assume ?L
    then obtain i where i: "Suc i < length (a # b # rest)"
      "is_break h ((a # b # rest) ! i) ((a # b # rest) ! Suc i)" by blast
    show ?R
    proof (cases i)
      case 0 then show ?thesis using i by simp
    next
      case (Suc j) then show ?thesis using i by auto
    qed
  next
    assume ?R
    then show ?L
    proof
      assume "is_break h a b"
      then show ?L by (intro exI[of _ 0]) simp
    next
      assume "\<exists>i. Suc i < length (b # rest) \<and> is_break h ((b # rest) ! i) ((b # rest) ! Suc i)"
      then obtain i where "Suc i < length (b # rest)" "is_break h ((b # rest) ! i) ((b # rest) ! Suc i)" by blast
      then show ?L by (intro exI[of _ "Suc i"]) simp
    qed
  qed
  with 1 show ?case by simp
qed simp_all

lemma has_overlap_append:
  "has_overlap h (xs @ ys) \<longleftrightarrow>
   has_overlap h xs \<or> has_overlap h ys \<or> (xs \<noteq> [] \<and> ys \<noteq> [] \<and> is_overlapping h (last xs) (hd ys))"
proof (induction xs)
  case Nil
  then show ?case by simp
next
  case (Cons a xs)
  show ?case
  proof (cases xs)
    case Nil
    then show ?thesis by (cases ys) auto
  next
    case (Cons b rest)
    with Cons.IH show ?thesis by auto
  qed
qed

lemma separated_has_overlap:
  "separated h rs \<Longrightarrow> has_overlap h (concat rs) \<longleftrightarrow> (\<exists>r\<in>set rs. has_overlap h r)"
proof (induction h rs rule: separated.induct)
  case (3 h r q rs)
  have ne: "concat (q # rs) \<noteq> []" and hdq: "hd (concat (q # rs)) = hd q"
    using "3.prems" by simp_all
  have nb: "\<not> is_overlapping h (last r) (hd q)"
    using "3.prems" by (simp add: break_not_overlapping)
  have "has_overlap h (concat (r # q # rs)) \<longleftrightarrow>
        has_overlap h r \<or> has_overlap h (concat (q # rs))"
    using has_overlap_append[of h r "concat (q # rs)"] nb hdq by auto
  with 3 show ?case by simp
qed simp_all

lemma separated_prefix:
  "separated h (R1 @ r # R2) \<Longrightarrow>
   separated h R1 \<and> r \<noteq> [] \<and> (R1 = [] \<or> is_break h (last (concat R1)) (hd r))"
proof (induction h R1 rule: separated.induct)
  case (1 h)
  then show ?case by (cases R2) simp_all
next
  case (2 h p)
  then show ?case by simp
next
  case (3 h p q rs)
  then have "separated h ((q # rs) @ r # R2)" and pq: "p \<noteq> []" "q \<noteq> []" "is_break h (last p) (hd q)"
    by simp_all
  from "3.IH"[OF this(1)] have IH: "separated h (q # rs)" "r \<noteq> []"
    "is_break h (last (concat (q # rs))) (hd r)" by simp_all
  have "concat (q # rs) \<noteq> []" using pq by simp
  then have "last (concat (p # q # rs)) = last (concat (q # rs))" by simp
  with IH pq show ?case by simp
qed

lemma has_overlap_cong:
  "(\<forall>a\<in>set ws. h' a = h a) \<Longrightarrow> has_overlap h' ws = has_overlap h ws"
  by (induction h ws rule: has_overlap.induct) (simp_all add: is_overlapping_def)

lemma check_overlap_from_cong:
  "(\<forall>a\<in>set ws. h' a = h a) \<Longrightarrow> check_overlap_from h' i ws = check_overlap_from h i ws"
  by (induction h i ws rule: check_overlap_from.induct) (simp_all add: Let_def)

lemma process_runs_error:
  "process_runs h secs runs = Inl e \<Longrightarrow> distinct (concat runs) \<Longrightarrow> [] \<notin> set runs \<Longrightarrow>
   \<exists>R1 r R2. runs = R1 @ r # R2 \<and> (\<forall>q\<in>set R1. \<not> has_overlap h q) \<and>
             check_overlap_from h 0 r = Inl e"
proof (induction runs arbitrary: h secs)
  case Nil
  then show ?case by simp
next
  case (Cons r rs)
  show ?case
  proof (cases "create_validated_section h r")
    case (Inl e')
    then have "e' = e" using Cons.prems(1) by simp
    then have "check_overlap_from h 0 r = Inl e"
      using Inl Cons.prems(3) by (auto simp: create_validated_section_Inl)
    then show ?thesis by (intro exI[of _ "[]"] exI[of _ r] exI[of _ rs]) simp
  next
    case (Inr hs)
    obtain h1 sec where hs: "hs = (h1, sec)" by (cases hs)
    from Inr hs have h1: "h1 = normalnize_time h r" and no: "\<not> has_overlap h r"
      by (simp_all add: create_validated_section_Inr)
    have p: "process_runs h1 (secs @ [sec]) rs = Inl e"
      using Cons.prems(1) Inr hs by simp
    have drs: "distinct (concat rs)" and disj: "set r \<inter> set (concat rs) = {}"
      and ne: "[] \<notin> set rs"
      using Cons.prems by auto
    from Cons.IH[OF p drs ne] obtain R1 q R2 where
      rs: "rs = R1 @ q # R2" and ok: "\<forall>q\<in>set R1. \<not> has_overlap h1 q"
      and ce: "check_overlap_from h1 0 q = Inl e" by blast
    have same: "h1 a = h a" if "a \<in> set (concat rs)" for a
    proof -
      from that have "a \<notin> set r" using disj by blast
      then have "a \<notin> set (butlast r)" by (auto dest: in_set_butlastD)
      then show ?thesis unfolding h1 by (rule normalnize_time_other)
    qed
    have "\<forall>p\<in>set R1. \<not> has_overlap h p"
    proof
      fix p assume p: "p \<in> set R1"
      then have "\<forall>a\<in>set p. h1 a = h a" using same rs by auto
      then have "has_overlap h1 p = has_overlap h p" by (rule has_overlap_cong)
      with ok p show "\<not> has_overlap h p" by simp
    qed
    moreover have "check_overlap_from h 0 q = Inl e"
    proof -
      have "\<forall>a\<in>set q. h1 a = h a" using same rs by auto
      then have "check_overlap_from h1 0 q = check_overlap_from h 0 q"
        by (rule check_overlap_from_cong)
      with ce show ?thesis by simp
    qed
    ultimately show ?thesis using rs no
      by (intro exI[of _ "r # R1"] exI[of _ q] exI[of _ R2]) simp
  qed
qed

lemma process_runs_accepts:
  "distinct (concat runs) \<Longrightarrow> [] \<notin> set runs \<Longrightarrow> \<forall>r\<in>set runs. \<not> has_overlap h r \<Longrightarrow>
   \<exists>h' secs'. process_runs h secs runs = Inr (h', secs')"
proof (induction runs arbitrary: h secs)
  case Nil
  then show ?case by simp
next
  case (Cons r rs)
  let ?h1 = "normalnize_time h r"
  let ?sec = "\<lparr>wordList = r, sectionStart = start (time (h (hd r))), sectionSrc = None\<rparr>"
  have c: "create_validated_section h r = Inr (?h1, ?sec)"
    using Cons.prems by (auto simp: create_validated_section_Inr)
  have drs: "distinct (concat rs)" and disj: "set r \<inter> set (concat rs) = {}"
    and ne: "[] \<notin> set rs"
    using Cons.prems by auto
  have "\<forall>q\<in>set rs. \<not> has_overlap ?h1 q"
  proof
    fix q assume q: "q \<in> set rs"
    have "\<forall>a\<in>set q. ?h1 a = h a"
    proof
      fix a assume "a \<in> set q"
      then have "a \<notin> set r" using disj q by auto
      then have "a \<notin> set (butlast r)" by (auto dest: in_set_butlastD)
      then show "?h1 a = h a" by (rule normalnize_time_other)
    qed
    then have "has_overlap ?h1 q = has_overlap h q" by (rule has_overlap_cong)
    then show "\<not> has_overlap ?h1 q" using Cons.prems(3) q by simp
  qed
  from Cons.IH[OF drs ne this, of "secs @ [?sec]"] c show ?case by simp
qed

lemma group_loop_concat:
  "group_loop h secs batch rest = Inr (h', secs', batch') \<Longrightarrow>
   concat (map wordList secs') @ batch' = concat (map wordList secs) @ batch @ rest"
proof (induction rest arbitrary: h secs batch)
  case Nil
  then show ?case by simp
next
  case (Cons cw rest)
  obtain b bs where batch: "batch = b # bs"
    using Cons.prems by (cases batch) auto
  show ?case
  proof (cases "start (time (h cw)) - end' (time (h (last batch))) > TIME_TOLERANCE")
    case True
    then obtain h1 sec where c: "create_validated_section h batch = Inr (h1, sec)"
      and g: "group_loop h1 (secs @ [sec]) [cw] rest = Inr (h', secs', batch')"
      using Cons.prems batch by (auto simp: Let_def split: sum.splits)
    from c have "wordList sec = batch" by (simp add: create_validated_section_Inr)
    with Cons.IH[OF g] show ?thesis by simp
  next
    case False
    then have "group_loop h secs (batch @ [cw]) rest = Inr (h', secs', batch')"
      using Cons.prems batch by (simp add: Let_def)
    from Cons.IH[OF this] show ?thesis by simp
  qed
qed

text \<open>
  Claim C10. Whenever the grouping step accepts a sequence of notes, the word lists of
  the sections it returns, concatenated in order, are the input sequence itself: the
  same note objects, in the same order, none dropped and none duplicated.
\<close>

theorem segment_flatten_identity:
  assumes "group_words_to_sections h words = Inr (h', sections)"
  shows "concat (map wordList sections) = words"
proof (cases words)
  case Nil
  with assms show ?thesis by (simp add: group_words_to_sections_def)
next
  case (Cons w0 rest)
  show ?thesis
  proof (cases "group_loop h [] [w0] rest")
    case (Inl e)
    with assms Cons show ?thesis by (simp add: group_words_to_sections_def)
  next
    case (Inr x)
    obtain h1 secs batch where x: "x = (h1, secs, batch)" by (cases x)
    from group_loop_concat[OF Inr[unfolded x]]
    have c: "concat (map wordList secs) @ batch = w0 # rest" by simp
    show ?thesis
    proof (cases "batch = []")
      case True
      with assms Cons Inr x c show ?thesis by (simp add: group_words_to_sections_def)
    next
      case False
      then obtain h2 sec where cv: "create_validated_section h1 batch = Inr (h2, sec)"
        and s: "sections = secs @ [sec]"
        using assms Cons Inr x by (auto simp: group_words_to_sections_def split: sum.splits)
      from cv have "wordList sec = batch" by (simp add: create_validated_section_Inr)
      with s c Cons show ?thesis by simp
    qed
  qed
qed

lemma micro_gap_run:
  "group_words_to_sections micro_gap_store [0, 1, 2] =
   Inr (set_end micro_gap_store 0 (1/2 + 1 / 10 ^ 13),
        [\<lparr>wordList = [0, 1], sectionStart = 0, sectionSrc = None\<rparr>,
         \<lparr>wordList = [2], sectionStart = 2, sectionSrc = None\<rparr>])"
  by (simp add: group_words_to_sections_def create_validated_section_def check_overlap_def
      Let_def TIME_TOLERANCE_def micro_gap_store_def store_of_def mk_word_def set_end_def)

lemma overlap_run:
  "group_words_to_sections overlap_store [0, 1, 2] = Inl (OverlapError 0 3 (5/2))"
  by (simp add: group_words_to_sections_def create_validated_section_def check_overlap_def
      Let_def TIME_TOLERANCE_def overlap_store_def store_of_def mk_word_def set_end_def)


lemma process_runs_no_overlap:
  "process_runs h secs runs = Inr (h', secs') \<Longrightarrow> distinct (concat runs) \<Longrightarrow>
   \<forall>r\<in>set runs. \<not> has_overlap h r"
proof (induction runs arbitrary: h secs)
  case Nil
  then show ?case by simp
next
  case (Cons r rs)
  then obtain h1 sec where c: "create_validated_section h r = Inr (h1, sec)"
    and p: "process_runs h1 (secs @ [sec]) rs = Inr (h', secs')"
    by (auto split: sum.splits)
  from c have h1: "h1 = normalnize_time h r" and no: "\<not> has_overlap h r"
    by (simp_all add: create_validated_section_Inr)
  have drs: "distinct (concat rs)" and disj: "set r \<inter> set (concat rs) = {}"
    using Cons.prems(2) by auto
  have "\<forall>q\<in>set rs. \<not> has_overlap h q"
  proof
    fix q assume q: "q \<in> set rs"
    have "\<forall>a\<in>set q. h1 a = h a"
    proof
      fix a assume "a \<in> set q"
      then have "a \<notin> set r" using disj q by auto
      then have "a \<notin> set (butlast r)" by (auto dest: in_set_butlastD)
      then show "h1 a = h a" unfolding h1 by (rule normalnize_time_other)
    qed
    then have "has_overlap h1 q = has_overlap h q" by (rule has_overlap_cong)
    then show "\<not> has_overlap h q" using Cons.IH[OF p drs] q by simp
  qed
  with no show ?case by simp
qed

text \<open>
  Claim C1. Whenever the grouping step accepts a sequence of distinct note objects,
  every section it returns is non-empty, every note of a section but the last ends,
  in the final store, exactly where the following note of the section starts, and the
  end time of the last note of the section is the one it had on entry.
\<close>

theorem normalization_invariant:
  assumes "distinct words"
    and "group_words_to_sections h words = Inr (h', sections)"
    and "sec \<in> set sections"
  shows "wordList sec \<noteq> [] \<and>
         (\<forall>i. Suc i < length (wordList sec) \<longrightarrow>
              end' (time (h' (wordList sec ! i))) = start (time (h' (wordList sec ! Suc i)))) \<and>
         end' (time (h' (last (wordList sec)))) = end' (time (h (last (wordList sec))))"
proof -
  let ?runs = "split_runs h words"
  have p: "process_runs h [] ?runs = Inr (h', sections)"
    using assms(1,2) by (simp add: group_words_to_sections_runs)
  have d: "distinct (concat ?runs)" using assms(1) by (simp add: concat_split_runs)
  have "map wordList sections = ?runs" using process_runs_wordLists[OF p] by simp
  then have mem: "wordList sec \<in> set ?runs" using assms(3) by (metis image_eqI list.set_map)
  then have ne: "wordList sec \<noteq> []" using split_runs_nonempty[of h words] by auto
  from process_runs_store[OF p d] mem have n: "normalized h h' (wordList sec)" by blast
  have st: "\<And>a. start (time (h' a)) = start (time (h a))"
    using process_runs_start[OF p] .
  from n ne st show ?thesis by (simp add: normalized_def)
qed

theorem normalization_invariant_witness:
  "distinct [0, 1, 2 :: nat] \<and>
   group_words_to_sections micro_gap_store [0, 1, 2] =
     Inr (set_end micro_gap_store 0 (1/2 + 1 / 10 ^ 13),
          [\<lparr>wordList = [0, 1], sectionStart = 0, sectionSrc = None\<rparr>,
           \<lparr>wordList = [2], sectionStart = 2, sectionSrc = None\<rparr>]) \<and>
   end' (time (micro_gap_store 0)) = 1/2 \<and>
   end' (time (set_end micro_gap_store 0 (1/2 + 1 / 10 ^ 13) 0)) =
     start (time (set_end micro_gap_store 0 (1/2 + 1 / 10 ^ 13) 1)) \<and>
   end' (time (set_end micro_gap_store 0 (1/2 + 1 / 10 ^ 13) 1)) = end' (time (micro_gap_store 1))"
proof -
  have d: "distinct [0, 1, 2 :: nat]" by simp
  have m: "\<lparr>wordList = [0, 1], sectionStart = 0, sectionSrc = None\<rparr> \<in>
           set [\<lparr>wordList = [0, 1], sectionStart = 0, sectionSrc = None\<rparr>,
                \<lparr>wordList = [2], sectionStart = 2, sectionSrc = None\<rparr>]" by simp
  from normalization_invariant[OF d micro_gap_run m]
  have adj: "\<forall>i. Suc i < length [0, 1 :: nat] \<longrightarrow>
               end' (time (set_end micro_gap_store 0 (1/2 + 1 / 10 ^ 13) ([0, 1] ! i))) =
               start (time (set_end micro_gap_store 0 (1/2 + 1 / 10 ^ 13) ([0, 1] ! Suc i)))"
    and lst: "end' (time (set_end micro_gap_store 0 (1/2 + 1 / 10 ^ 13) (last [0, 1]))) =
              end' (time (micro_gap_store (last [0, 1])))"
    by simp_all
  from adj[rule_format, of 0] lst d micro_gap_run show ?thesis
    by (simp add: micro_gap_store_def store_of_def mk_word_def)
qed

text \<open>
  Claim C3. Whenever the grouping step accepts a sequence of distinct note objects,
  the sections flatten to the input, and two consecutive input notes lie in different
  sections when \<open>next.start - prev.end > TIME_TOLERANCE\<close> (on the times on entry) and
  in the same section when \<open>next.start - prev.end \<le> TIME_TOLERANCE\<close>: the sections
  are the maximal runs of continuous notes.
\<close>

theorem phrase_boundaries:
  assumes "distinct words"
    and "group_words_to_sections h words = Inr (h', sections)"
    and "Suc i < length words"
  shows "concat (map wordList sections) = words \<and>
         (start (time (h (words ! Suc i))) - end' (time (h (words ! i))) > TIME_TOLERANCE \<longrightarrow>
            phrase_index (map wordList sections) (Suc i) \<noteq> phrase_index (map wordList sections) i) \<and>
         (start (time (h (words ! Suc i))) - end' (time (h (words ! i))) \<le> TIME_TOLERANCE \<longrightarrow>
            phrase_index (map wordList sections) (Suc i) = phrase_index (map wordList sections) i)"
proof -
  let ?runs = "split_runs h words"
  have p: "process_runs h [] ?runs = Inr (h', sections)"
    using assms(1,2) by (simp add: group_words_to_sections_runs)
  have eq: "map wordList sections = ?runs" using process_runs_wordLists[OF p] by simp
  have "concat (map wordList sections) = words" unfolding eq by (rule concat_split_runs)
  then show ?thesis
    unfolding eq using phrase_index_split_runs[OF assms(3), of h]
    by (simp add: is_break_def)
qed

theorem phrase_boundaries_witness:
  "distinct [0, 1, 2 :: nat] \<and> Suc 0 < length [0, 1, 2 :: nat] \<and> Suc 1 < length [0, 1, 2 :: nat] \<and>
   start (time (micro_gap_store 1)) - end' (time (micro_gap_store 0)) \<le> TIME_TOLERANCE \<and>
   phrase_index [[0, 1], [2 :: nat]] (Suc 0) = phrase_index [[0, 1], [2 :: nat]] 0 \<and>
   start (time (micro_gap_store 2)) - end' (time (micro_gap_store 1)) > TIME_TOLERANCE \<and>
   phrase_index [[0, 1], [2 :: nat]] (Suc 1) \<noteq> phrase_index [[0, 1], [2 :: nat]] 1"
proof -
  have d: "distinct [0, 1, 2 :: nat]" by simp
  have i0: "Suc 0 < length [0, 1, 2 :: nat]" and i1: "Suc 1 < length [0, 1, 2 :: nat]" by simp_all
  have g0: "start (time (micro_gap_store 1)) - end' (time (micro_gap_store 0)) \<le> TIME_TOLERANCE"
    and g1: "start (time (micro_gap_store 2)) - end' (time (micro_gap_store 1)) > TIME_TOLERANCE"
    by (simp_all add: micro_gap_store_def store_of_def mk_word_def TIME_TOLERANCE_def)
  from phrase_boundaries[OF d micro_gap_run i0] g0
  have a: "phrase_index [[0, 1], [2 :: nat]] (Suc 0) = phrase_index [[0, 1], [2 :: nat]] 0"
    by simp
  from phrase_boundaries[OF d micro_gap_run i1] g1
  have b: "phrase_index [[0, 1], [2 :: nat]] (Suc 1) \<noteq> phrase_index [[0, 1], [2 :: nat]] 1"
    by simp
  from d i0 i1 g0 g1 a b show ?thesis by blast
qed

theorem segment_flatten_identity_witness:
  "group_words_to_sections micro_gap_store [0, 1, 2] =
     Inr (set_end micro_gap_store 0 (1/2 + 1 / 10 ^ 13),
          [\<lparr>wordList = [0, 1], sectionStart = 0, sectionSrc = None\<rparr>,
           \<lparr>wordList = [2], sectionStart = 2, sectionSrc = None\<rparr>]) \<and>
   concat (map wordList [\<lparr>wordList = [0, 1], sectionStart = 0, sectionSrc = None\<rparr>,
           \<lparr>wordList = [2], sectionStart = 2, sectionSrc = None\<rparr>]) = [0, 1, 2]"
  using segment_flatten_identity[OF micro_gap_run] micro_gap_run by blast

lemma group_error_iff:
  assumes "distinct words"
  shows "(\<exists>e. group_words_to_sections h words = Inl e) \<longleftrightarrow> has_overlap h words"
proof -
  let ?runs = "split_runs h words"
  have g: "group_words_to_sections h words = process_runs h [] ?runs"
    using assms by (rule group_words_to_sections_runs)
  have d: "distinct (concat ?runs)" using assms by (simp add: concat_split_runs)
  have ne: "[] \<notin> set ?runs" by (rule split_runs_nonempty)
  have ov: "has_overlap h words \<longleftrightarrow> (\<exists>r\<in>set ?runs. has_overlap h r)"
    using separated_has_overlap[OF separated_split_runs, of h words]
    by (simp add: concat_split_runs)
  show ?thesis
  proof
    assume "\<exists>e. group_words_to_sections h words = Inl e"
    then obtain e where "process_runs h [] ?runs = Inl e" using g by auto
    from process_runs_error[OF this d ne] obtain R1 r R2 where
      "?runs = R1 @ r # R2" "check_overlap_from h 0 r = Inl e" by blast
    moreover from this(2) have "has_overlap h r"
      using check_overlap_from_ok[of h 0 r] by auto
    ultimately show "has_overlap h words" using ov by auto
  next
    assume "has_overlap h words"
    then have ex: "\<exists>r\<in>set ?runs. has_overlap h r" using ov by simp
    show "\<exists>e. group_words_to_sections h words = Inl e"
    proof (cases "process_runs h [] ?runs")
      case (Inl e)
      then show ?thesis using g by simp
    next
      case (Inr x)
      obtain h' secs' where "x = (h', secs')" by (cases x)
      with Inr process_runs_no_overlap[OF _ d] ex show ?thesis by blast
    qed
  qed
qed

text \<open>
  Claim C2, amended. On a sequence of distinct note objects, the grouping step raises
  exactly when some consecutive pair of input notes has
  \<open>prev.end - next.start > TIME_TOLERANCE\<close>. The error it raises is about the first
  such pair of the input and carries the two times of that pair; the index it carries
  is the position of the pair inside its own run of continuous notes (the run starts
  the input or follows a break, and has no break inside), not the position in the
  input.
\<close>

theorem overlap_error_iff:
  assumes "distinct words"
  shows "((\<exists>e. group_words_to_sections h words = Inl e) \<longleftrightarrow>
          (\<exists>i. Suc i < length words \<and> is_overlapping h (words ! i) (words ! Suc i))) \<and>
         (\<forall>e. group_words_to_sections h words = Inl e \<longrightarrow>
            (\<exists>pre run post i.
               words = pre @ run @ post \<and> Suc i < length run \<and>
               e = OverlapError i (end' (time (h (run ! i)))) (start (time (h (run ! Suc i)))) \<and>
               is_overlapping h (run ! i) (run ! Suc i) \<and>
               (pre = [] \<or> is_break h (last pre) (hd run)) \<and>
               (\<forall>k. Suc k < length run \<longrightarrow> \<not> is_break h (run ! k) (run ! Suc k)) \<and>
               (\<forall>k. Suc k < length pre \<longrightarrow> \<not> is_overlapping h (pre ! k) (pre ! Suc k)) \<and>
               (\<forall>k<i. \<not> is_overlapping h (run ! k) (run ! Suc k))))"
proof (intro conjI allI impI)
  show "(\<exists>e. group_words_to_sections h words = Inl e) \<longleftrightarrow>
        (\<exists>i. Suc i < length words \<and> is_overlapping h (words ! i) (words ! Suc i))"
    using group_error_iff[OF assms] has_overlap_nth by simp
next
  fix e assume err: "group_words_to_sections h words = Inl e"
  let ?runs = "split_runs h words"
  have p: "process_runs h [] ?runs = Inl e"
    using err assms by (simp add: group_words_to_sections_runs)
  have d: "distinct (concat ?runs)" using assms by (simp add: concat_split_runs)
  have ne: "[] \<notin> set ?runs" by (rule split_runs_nonempty)
  from process_runs_error[OF p d ne] obtain R1 r R2 where
    runs: "?runs = R1 @ r # R2" and ok: "\<forall>q\<in>set R1. \<not> has_overlap h q"
    and ce: "check_overlap_from h 0 r = Inl e" by blast
  from check_overlap_from_error[OF ce] obtain j where
    j: "Suc j < length r"
    "e = OverlapError j (end' (time (h (r ! j)))) (start (time (h (r ! Suc j))))"
    "is_overlapping h (r ! j) (r ! Suc j)"
    "\<forall>k<j. \<not> is_overlapping h (r ! k) (r ! Suc k)" by auto
  have sep: "separated h (R1 @ r # R2)" using separated_split_runs[of h words] runs by simp
  from separated_prefix[OF sep] have sepR1: "separated h R1"
    and brk: "R1 = [] \<or> is_break h (last (concat R1)) (hd r)" by simp_all
  have w: "words = concat R1 @ r @ concat R2"
    using concat_split_runs[of h words] runs by simp
  have pre: "concat R1 = [] \<or> is_break h (last (concat R1)) (hd r)" using brk by auto
  have "r \<in> set ?runs" using runs by simp
  then have "\<not> has_break h r" by (rule no_break_split_runs)
  then have nb: "\<forall>k. Suc k < length r \<longrightarrow> \<not> is_break h (r ! k) (r ! Suc k)"
    using has_break_nth by blast
  have "\<not> has_overlap h (concat R1)" using separated_has_overlap[OF sepR1] ok by simp
  then have no: "\<forall>k. Suc k < length (concat R1) \<longrightarrow>
                   \<not> is_overlapping h (concat R1 ! k) (concat R1 ! Suc k)"
    using has_overlap_nth by blast
  from w j pre nb no
  show "\<exists>pre run post i.
               words = pre @ run @ post \<and> Suc i < length run \<and>
               e = OverlapError i (end' (time (h (run ! i)))) (start (time (h (run ! Suc i)))) \<and>
               is_overlapping h (run ! i) (run ! Suc i) \<and>
               (pre = [] \<or> is_break h (last pre) (hd run)) \<and>
               (\<forall>k. Suc k < length run \<longrightarrow> \<not> is_break h (run ! k) (run ! Suc k)) \<and>
               (\<forall>k. Suc k < length pre \<longrightarrow> \<not> is_overlapping h (pre ! k) (pre ! Suc k)) \<and>
               (\<forall>k<i. \<not> is_overlapping h (run ! k) (run ! Suc k))"
    by (intro exI[of _ "concat R1"] exI[of _ r] exI[of _ "concat R2"] exI[of _ j]) simp
qed

text \<open>
  Claim C2 as stated fails: on a note alone followed by two overlapping notes, the
  error carries index \<open>0\<close> and the end time \<open>3\<close>, while the pair at index \<open>0\<close> of
  the input does not overlap and its first note ends at \<open>1\<close>; the overlapping pair
  is at index \<open>1\<close> of the input.
\<close>

theorem overlap_error_index_counterexample:
  "group_words_to_sections overlap_store [0, 1, 2] = Inl (OverlapError 0 3 (5/2)) \<and>
   \<not> is_overlapping overlap_store ([0, 1, 2] ! 0) ([0, 1, 2] ! Suc 0) \<and>
   end' (time (overlap_store ([0, 1, 2] ! 0))) \<noteq> 3 \<and>
   is_overlapping overlap_store ([0, 1, 2] ! 1) ([0, 1, 2] ! Suc 1)"
  using overlap_run
  by (simp add: is_overlapping_def overlap_store_def store_of_def mk_word_def TIME_TOLERANCE_def)

theorem overlap_error_iff_witness:
  "distinct [0, 1, 2 :: nat] \<and>
   group_words_to_sections overlap_store [0, 1, 2] = Inl (OverlapError 0 3 (5/2)) \<and>
   (\<exists>i. Suc i < length [0, 1, 2 :: nat] \<and>
        is_overlapping overlap_store ([0, 1, 2] ! i) ([0, 1, 2] ! Suc i)) \<and>
   (\<exists>pre run post i.
      [0, 1, 2] = pre @ run @ post \<and> Suc i < length run \<and>
      OverlapError 0 3 (5/2) =
        OverlapError i (end' (time (overlap_store (run ! i)))) (start (time (overlap_store (run ! Suc i)))) \<and>
      (pre = [] \<or> is_break overlap_store (last pre) (hd run)))"
proof -
  have d: "distinct [0, 1, 2 :: nat]" by simp
  note t = overlap_error_iff[OF d, of overlap_store]
  have ex: "\<exists>e. group_words_to_sections overlap_store [0, 1, 2] = Inl e"
    using overlap_run by blast
  from t ex have a: "\<exists>i. Suc i < length [0, 1, 2 :: nat] \<and>
        is_overlapping overlap_store ([0, 1, 2] ! i) ([0, 1, 2] ! Suc i)" by blast
  from t overlap_run have "\<exists>pre run post i.
      [0, 1, 2] = pre @ run @ post \<and> Suc i < length run \<and>
      OverlapError 0 3 (5/2) =
        OverlapError i (end' (time (overlap_store (run ! i)))) (start (time (overlap_store (run ! Suc i)))) \<and>
      (pre = [] \<or> is_break overlap_store (last pre) (hd run))" by blast
  with d overlap_run a show ?thesis by blast
qed

section \<open>The pitch retargeter: lemmas\<close>


lemma align_length_longer: "n < length y \<Longrightarrow> align_length y n = take n y"
  by (simp add: align_length_def)

lemma align_length_shorter:
  "length y < n \<Longrightarrow> align_length y n = y @ replicate (n - length y) 0"
  by (simp add: align_length_def)





lemma np_mean_pos:
  assumes "xs \<noteq> []" and "\<forall>x\<in>set xs. 0 < x"
  shows "0 < np_mean xs"
proof -
  have "0 < sum_list xs" using assms
  proof (induction xs)
    case Nil
    then show ?case by simp
  next
    case (Cons a xs)
    then show ?case by (cases xs) (auto intro: add_pos_pos)
  qed
  moreover have "0 < real (length xs)" using assms(1) by simp
  ultimately show ?thesis by (simp add: np_mean_def)
qed

lemma length_modify_f0: "length (modify_f0 f0 target_freq) = length f0"
  by (simp add: modify_f0_def Let_def)

lemma modify_f0_nth:
  "i < length f0 \<Longrightarrow>
   modify_f0 f0 target_freq ! i =
     (let m = f0 ! i * (target_freq / np_mean (filter (\<lambda>v. v > 0) f0))
      in if m > 0 then np_clip m 50 1600 else 0)"
  by (simp add: modify_f0_def Let_def)

text \<open>
  Claim C9. When the analysis succeeds and at least one frame is voiced, the contour
  that \<open>_shift_pitch\<close> hands to the synthesis has one value per analysis frame, each
  either \<open>0\<close> or within \<open>[50, 1600]\<close>; a frame that was \<open>0\<close> stays \<open>0\<close>, and for a
  positive target pitch a voiced frame stays voiced.
\<close>

theorem shifted_contour_range:
  assumes "dio pw audio (sample_rate (coder_context self)) (frame_period self) = Inr (f0_dio, t)"
    and "stonemask pw audio f0_dio t (sample_rate (coder_context self)) = Inr f0"
    and "cheaptrick pw audio f0 t (sample_rate (coder_context self)) = Inr sp"
    and "d4c pw audio f0 t (sample_rate (coder_context self)) = Inr ap"
    and "\<exists>v\<in>set f0. 0 < v"
  shows "shift_pitch pw self audio target_freq =
           (case synthesize pw (modify_f0 f0 target_freq) sp ap
                   (sample_rate (coder_context self)) (frame_period self) of
              Inl e \<Rightarrow> Inl e
            | Inr y \<Rightarrow> Inr (align_length y (length audio))) \<and>
         length (modify_f0 f0 target_freq) = length f0 \<and>
         (\<forall>i<length f0.
            (modify_f0 f0 target_freq ! i = 0 \<or>
             (50 \<le> modify_f0 f0 target_freq ! i \<and> modify_f0 f0 target_freq ! i \<le> 1600)) \<and>
            (f0 ! i = 0 \<longrightarrow> modify_f0 f0 target_freq ! i = 0) \<and>
            (0 < target_freq \<longrightarrow> 0 < f0 ! i \<longrightarrow> 50 \<le> modify_f0 f0 target_freq ! i))"
proof (intro conjI allI impI)
  have "filter (\<lambda>v. v > 0) f0 \<noteq> []" using assms(5) by (simp add: filter_empty_conv)
  then show "shift_pitch pw self audio target_freq =
           (case synthesize pw (modify_f0 f0 target_freq) sp ap
                   (sample_rate (coder_context self)) (frame_period self) of
              Inl e \<Rightarrow> Inl e
            | Inr y \<Rightarrow> Inr (align_length y (length audio)))"
    using assms(1-4) by (simp add: shift_pitch_def Let_def)
next
  show "length (modify_f0 f0 target_freq) = length f0" by (rule length_modify_f0)
next
  fix i assume "i < length f0"
  then show "modify_f0 f0 target_freq ! i = 0 \<or>
             (50 \<le> modify_f0 f0 target_freq ! i \<and> modify_f0 f0 target_freq ! i \<le> 1600)"
    by (simp add: modify_f0_nth Let_def np_clip_def)
next
  fix i assume "i < length f0" "f0 ! i = 0"
  then show "modify_f0 f0 target_freq ! i = 0"
    by (simp add: modify_f0_nth Let_def)
next
  fix i assume i: "i < length f0" and tp: "0 < target_freq" and v: "0 < f0 ! i"
  have ne: "filter (\<lambda>v. v > 0) f0 \<noteq> []" using assms(5) by (simp add: filter_empty_conv)
  have "0 < np_mean (filter (\<lambda>v. v > 0) f0)" by (rule np_mean_pos[OF ne]) simp
  then have "0 < f0 ! i * (target_freq / np_mean (filter (\<lambda>v. v > 0) f0))"
    using tp v by simp
  then show "50 \<le> modify_f0 f0 target_freq ! i"
    using i by (simp add: modify_f0_nth Let_def np_clip_def)
qed

theorem shifted_contour_range_witness:
  "dio demo_pyworld [1, 1, 1, 1, 1, 1] (sample_rate (coder_context demo_coder)) (frame_period demo_coder)
     = Inr ([0, 100, 120, 1000], [0, 5 / 1000, 10 / 1000, 15 / 1000]) \<and>
   stonemask demo_pyworld [1, 1, 1, 1, 1, 1] [0, 100, 120, 1000] [0, 5 / 1000, 10 / 1000, 15 / 1000]
     (sample_rate (coder_context demo_coder)) = Inr [0, 100, 120, 1000] \<and>
   cheaptrick demo_pyworld [1, 1, 1, 1, 1, 1] [0, 100, 120, 1000] [0, 5 / 1000, 10 / 1000, 15 / 1000]
     (sample_rate (coder_context demo_coder)) = Inr () \<and>
   d4c demo_pyworld [1, 1, 1, 1, 1, 1] [0, 100, 120, 1000] [0, 5 / 1000, 10 / 1000, 15 / 1000]
     (sample_rate (coder_context demo_coder)) = Inr () \<and>
   (100 :: real) \<in> set [0, 100, 120, 1000] \<and> (0 :: real) < 100 \<and>
   modify_f0 [0, 100, 120, 1000] 2200 = [0, 33000 / 61, 39600 / 61, 1600] \<and>
   modify_f0 [0, 100, 120, 1000] 2200 ! 0 = 0 \<and>
   50 \<le> modify_f0 [0, 100, 120, 1000] 2200 ! 1 \<and> modify_f0 [0, 100, 120, 1000] 2200 ! 1 \<le> 1600 \<and>
   50 \<le> modify_f0 [0, 100, 120, 1000] 2200 ! 3 \<and> modify_f0 [0, 100, 120, 1000] 2200 ! 3 \<le> 1600"
proof -
  have a: "dio demo_pyworld [1, 1, 1, 1, 1, 1] (sample_rate (coder_context demo_coder)) (frame_period demo_coder)
     = Inr ([0, 100, 120, 1000], [0, 5 / 1000, 10 / 1000, 15 / 1000])"
    and b: "stonemask demo_pyworld [1, 1, 1, 1, 1, 1] [0, 100, 120, 1000] [0, 5 / 1000, 10 / 1000, 15 / 1000]
     (sample_rate (coder_context demo_coder)) = Inr [0, 100, 120, 1000]"
    and c: "cheaptrick demo_pyworld [1, 1, 1, 1, 1, 1] [0, 100, 120, 1000] [0, 5 / 1000, 10 / 1000, 15 / 1000]
     (sample_rate (coder_context demo_coder)) = Inr ()"
    and d: "d4c demo_pyworld [1, 1, 1, 1, 1, 1] [0, 100, 120, 1000] [0, 5 / 1000, 10 / 1000, 15 / 1000]
     (sample_rate (coder_context demo_coder)) = Inr ()"
    by (simp_all add: demo_pyworld_def)
  have v: "(100 :: real) \<in> set [0, 100, 120, 1000]" "(0 :: real) < 100" by simp_all
  then have e: "\<exists>v\<in>set [0, 100, 120, 1000 :: real]. 0 < v" by blast
  have m: "modify_f0 [0, 100, 120, 1000] 2200 = [0, 33000 / 61, 39600 / 61, 1600]"
    by (simp add: modify_f0_def np_mean_def np_clip_def Let_def)
  have t: "(2200 :: real) > 0" by simp
  from shifted_contour_range[OF a b c d e, of 2200]
  have r: "\<And>i. i < length [0, 100, 120, 1000 :: real] \<Longrightarrow>
      ([0, 100, 120, 1000 :: real] ! i = 0 \<longrightarrow> modify_f0 [0, 100, 120, 1000] 2200 ! i = 0) \<and>
      (0 < [0, 100, 120, 1000 :: real] ! i \<longrightarrow>
         50 \<le> modify_f0 [0, 100, 120, 1000] 2200 ! i \<and> modify_f0 [0, 100, 120, 1000] 2200 ! i \<le> 1600)"
    using t by fastforce
  from r[of 0] have r0: "modify_f0 [0, 100, 120, 1000] 2200 ! 0 = 0" by simp
  from r[of 1] have r1: "50 \<le> modify_f0 [0, 100, 120, 1000] 2200 ! 1 \<and>
      modify_f0 [0, 100, 120, 1000] 2200 ! 1 \<le> 1600" by simp
  from r[of 3] have r3: "50 \<le> modify_f0 [0, 100, 120, 1000] 2200 ! 3 \<and>
      modify_f0 [0, 100, 120, 1000] 2200 ! 3 \<le> 1600" by simp
  from a b c d v m r0 r1 r3 show ?thesis by blast
qed

section \<open>The wave connecter: lemmas\<close>

lemma slice_bounds_le:
  "slice_bounds n lo hi = (l, u) \<Longrightarrow> l \<le> u \<and> u \<le> n"
  by (auto simp: slice_bounds_def Let_def max_def min_def split: option.splits if_splits)

lemma slice_update_length:
  assumes "slice_update f arr lo hi v = Inr r"
  shows "length r = length arr"
proof -
  obtain l u where b: "slice_bounds (length arr) lo hi = (l, u)" by (cases "slice_bounds (length arr) lo hi")
  from slice_bounds_le[OF b] have lu: "l \<le> u" "u \<le> length arr" by simp_all
  from assms b lu show ?thesis
    by (auto simp: slice_update_def Let_def split: if_splits)
qed

lemma slice_bounds_prefix:
  "0 \<le> k \<Longrightarrow> k \<le> int n \<Longrightarrow> slice_bounds n None (Some k) = (0, nat k)"
  by (simp add: slice_bounds_def Let_def)

lemma slice_bounds_suffix:
  "0 < k \<Longrightarrow> k \<le> int n \<Longrightarrow> slice_bounds n (Some (- k)) None = (n - nat k, n)"
  by (auto simp: slice_bounds_def Let_def max_def)

lemma slice_bounds_inside:
  "0 \<le> s \<Longrightarrow> s + int k \<le> int n \<Longrightarrow>
   slice_bounds n (Some s) (Some (s + int k)) = (nat s, nat s + k)"
  by (auto simp: slice_bounds_def Let_def max_def min_def nat_add_distrib)

lemma slice_update_exact:
  assumes "slice_bounds (length arr) lo hi = (l, l + length v)" and "l + length v \<le> length arr"
  shows "slice_update f arr lo hi v =
         Inr (take l arr @ map2 f (take (length v) (drop l arr)) v @ drop (l + length v) arr)"
  using assms by (simp add: slice_update_def)

lemma spliced_nth:
  assumes "l + length v \<le> length arr" and "k < length arr"
  shows "(take l arr @ map2 f (take (length v) (drop l arr)) v @ drop (l + length v) arr) ! k =
         (if l \<le> k \<and> k < l + length v then f (arr ! k) (v ! (k - l)) else arr ! k)"
proof -
  let ?n = "length v"
  let ?r = "take l arr @ map2 f (take ?n (drop l arr)) v @ drop (l + ?n) arr"
  have l1: "length (take l arr) = l" using assms(1) by simp
  have l2: "length (map2 f (take ?n (drop l arr)) v) = ?n" using assms(1) by simp
  consider "k < l" | "l \<le> k" "k < l + ?n" | "l + ?n \<le> k" by linarith
  then show ?thesis
  proof cases
    case 1
    then show ?thesis using l1 by (simp add: nth_append)
  next
    case 2
    have kn: "k - l < ?n" using 2 by linarith
    have ko: "l + (k - l) = k" using 2 by simp
    have "?r ! k = (map2 f (take ?n (drop l arr)) v @ drop (l + ?n) arr) ! (k - l)"
      using l1 2(1) by (simp add: nth_append)
    also have "\<dots> = map2 f (take ?n (drop l arr)) v ! (k - l)"
      using l2 kn by (simp add: nth_append)
    also have "\<dots> = f (arr ! k) (v ! (k - l))"
      using kn ko assms(1) by simp
    finally show ?thesis using 2 by simp
  next
    case 3
    have k1: "\<not> k < l" and k2: "\<not> k - l < ?n" using 3 by linarith+
    have "?r ! k = (map2 f (take ?n (drop l arr)) v @ drop (l + ?n) arr) ! (k - l)"
      using l1 k1 by (simp add: nth_append)
    also have "\<dots> = drop (l + ?n) arr ! (k - l - ?n)"
      using l2 k2 by (simp add: nth_append)
    also have "\<dots> = arr ! k" using 3 assms(2) by simp
    finally show ?thesis using 3 by simp
  qed
qed

lemma slice_update_nth:
  assumes "slice_bounds (length arr) lo hi = (l, l + length v)" and "l + length v \<le> length arr"
  shows "\<exists>r. slice_update f arr lo hi v = Inr r \<and> length r = length arr \<and>
             (\<forall>k<length arr. r ! k =
                (if l \<le> k \<and> k < l + length v then f (arr ! k) (v ! (k - l)) else arr ! k))"
proof -
  let ?r = "take l arr @ map2 f (take (length v) (drop l arr)) v @ drop (l + length v) arr"
  have r: "slice_update f arr lo hi v = Inr ?r" using assms by (rule slice_update_exact)
  then have "length ?r = length arr" by (rule slice_update_length)
  moreover have "\<forall>k<length arr. ?r ! k =
                (if l \<le> k \<and> k < l + length v then f (arr ! k) (v ! (k - l)) else arr ! k)"
    using spliced_nth[OF assms(2)] by blast
  ultimately show ?thesis using r by blast
qed

lemma np_linspace_pos:
  assumes "0 < num"
  shows "\<exists>xs. np_linspace a b num = Inr xs \<and> length xs = nat num \<and> xs ! 0 = a \<and>
              (2 \<le> num \<longrightarrow> xs ! (nat num - 1) = b) \<and> (num = 1 \<longrightarrow> xs = [a])"
proof (cases "num = 1")
  case True
  then show ?thesis by (simp add: np_linspace_def)
next
  case False
  with assms have n2: "2 \<le> num" by simp
  let ?xs = "map (\<lambda>i. if i = nat num - 1 then b
                          else a + real i * ((b - a) / real (nat num - 1))) [0..<nat num]"
  have eq: "np_linspace a b num = Inr ?xs" using False assms by (simp add: np_linspace_def)
  have len: "length ?xs = nat num" by simp
  have "0 < nat num" "nat num - 1 < nat num" "0 \<noteq> nat num - 1" using n2 by linarith+
  then have "?xs ! 0 = a" and "?xs ! (nat num - 1) = b"
    by (simp_all del: upt_Suc)
  with eq len False show ?thesis by blast
qed

lemma py_int_nonneg: "0 \<le> x \<Longrightarrow> 0 \<le> py_int x"
  by (simp add: py_int_def)

lemma py_int_floor: "0 \<le> x \<Longrightarrow> py_int x = \<lfloor>x\<rfloor>"
  by (simp add: py_int_def)

lemma fade_samples_of_bounds:
  assumes "0 \<le> sample_rate ctx"
  shows "0 \<le> fade_samples_of ctx wave \<and> 2 * fade_samples_of ctx wave \<le> int (length wave) \<and>
         fade_samples_of ctx wave =
           min (py_int (0.005 * real_of_int (sample_rate ctx))) (int (length wave) div 2)"
proof -
  have "0 \<le> py_int (0.005 * real_of_int (sample_rate ctx))"
    using assms by (intro py_int_nonneg) simp
  then show ?thesis
    by (auto simp: fade_samples_of_def Let_def min_def)
qed

text \<open>
  What the envelope does for a non-negative sample rate: it returns a wave of the same
  length; with \<open>fade_samples = 0\<close> it is the source itself; otherwise the first sample
  is \<open>0\<close>; the last sample is \<open>0\<close> when \<open>fade_samples\<close> is at least \<open>2\<close>, and is the
  source's last sample when \<open>fade_samples = 1\<close>.
\<close>

lemma declick_result:
  assumes "0 \<le> sample_rate ctx"
  shows "\<exists>p. apply_declick_envelope ctx wave = Inr p \<and> length p = length wave \<and>
             (fade_samples_of ctx wave = 0 \<longrightarrow> p = wave) \<and>
             (0 < fade_samples_of ctx wave \<longrightarrow> p ! 0 = 0) \<and>
             (2 \<le> fade_samples_of ctx wave \<longrightarrow> p ! (length wave - 1) = 0) \<and>
             (fade_samples_of ctx wave = 1 \<longrightarrow> p ! (length wave - 1) = wave ! (length wave - 1))"
proof (cases "fade_samples_of ctx wave = 0")
  case True
  then show ?thesis by (simp add: apply_declick_envelope_def)
next
  case False
  let ?fs = "fade_samples_of ctx wave"
  let ?n = "nat ?fs"
  let ?len = "length wave"
  from fade_samples_of_bounds[OF assms, of wave]
  have nonneg: "0 \<le> ?fs" and half: "2 * ?fs \<le> int ?len" by blast+
  from nonneg False have pos: "0 < ?fs" by linarith
  have n1: "1 \<le> ?n" and n2: "2 * ?n \<le> ?len" using pos half by linarith+
  from np_linspace_pos[OF pos, of 0 1] obtain fi where
    fi: "np_linspace 0 1 ?fs = Inr fi" "length fi = ?n" "fi ! 0 = 0" by blast
  from np_linspace_pos[OF pos, of 1 0] obtain fo where
    fo: "np_linspace 1 0 ?fs = Inr fo" "length fo = ?n"
        "2 \<le> ?fs \<longrightarrow> fo ! (?n - 1) = 0" "?fs = 1 \<longrightarrow> fo = [1]" by blast
  have b1: "slice_bounds ?len None (Some ?fs) = (0, 0 + length fi)"
    using slice_bounds_prefix[of ?fs ?len] pos half fi(2) by simp
  have "0 + length fi \<le> ?len" using fi(2) n2 by simp
  from slice_update_nth[OF b1 this, of "(*)"] obtain p1 where
    p1: "slice_update (*) wave None (Some ?fs) fi = Inr p1" "length p1 = ?len"
        "\<forall>k<?len. p1 ! k = (if 0 \<le> k \<and> k < 0 + length fi then wave ! k * fi ! (k - 0) else wave ! k)"
    by blast
  let ?l = "?len - ?n"
  have b2: "slice_bounds (length p1) (Some (- ?fs)) None = (?l, ?l + length fo)"
    using slice_bounds_suffix[of ?fs "length p1"] pos half p1(2) fo(2) n2 by simp
  have "?l + length fo \<le> length p1" using fo(2) p1(2) n2 by simp
  from slice_update_nth[OF b2 this, of "(*)"] obtain p where
    p: "slice_update (*) p1 (Some (- ?fs)) None fo = Inr p" "length p = length p1"
       "\<forall>k<length p1. p ! k = (if ?l \<le> k \<and> k < ?l + length fo then p1 ! k * fo ! (k - ?l) else p1 ! k)"
    by blast
  have res: "apply_declick_envelope ctx wave = Inr p"
    using False fi(1) fo(1) p1(1) p(1) by (simp add: apply_declick_envelope_def Let_def)
  have lpos: "0 < ?l" "0 < ?len" using n1 n2 by linarith+
  have first: "p ! 0 = 0"
  proof -
    have "p ! 0 = p1 ! 0" using p(3)[rule_format, of 0] p1(2) lpos by simp
    also have "\<dots> = wave ! 0 * fi ! 0"
      using p1(3)[rule_format, of 0] lpos fi(2) n1 pos by simp
    finally show ?thesis using fi(3) by simp
  qed
  have lastk: "?l \<le> ?len - 1" "?len - 1 < ?l + length fo" "?len - 1 < length p1"
    "?len - 1 - ?l = ?n - 1"
    using n1 n2 fo(2) p1(2) by linarith+
  have lst: "p ! (?len - 1) = p1 ! (?len - 1) * fo ! (?n - 1)"
    using p(3)[rule_format, of "?len - 1"] lastk by simp
  have last0: "2 \<le> ?fs \<longrightarrow> p ! (?len - 1) = 0" using lst fo(3) by simp
  have last1: "?fs = 1 \<longrightarrow> p ! (?len - 1) = wave ! (?len - 1)"
  proof
    assume one: "?fs = 1"
    then have "fo ! (?n - 1) = 1" using fo(4) by simp
    then have "p ! (?len - 1) = p1 ! (?len - 1)" using lst by simp
    also have "\<dots> = wave ! (?len - 1)"
    proof -
      have "\<not> ?len - 1 < 0 + length fi" using fi(2) one n2 by simp
      then show ?thesis using p1(3)[rule_format, of "?len - 1"] lpos by simp
    qed
    finally show "p ! (?len - 1) = wave ! (?len - 1)" .
  qed
  from res p(2) p1(2) False first last0 last1 pos show ?thesis by simp
qed

lemma declick_returns:
  "0 \<le> sample_rate ctx \<Longrightarrow> \<exists>p. apply_declick_envelope ctx wave = Inr p \<and> length p = length wave"
  using declick_result[of ctx wave] by blast

lemma start_idx_floor:
  assumes "0 \<le> sample_rate ctx" and "base_time \<le> start (time word)"
  shows "0 \<le> start_idx ctx base_time word \<and>
         start_idx ctx base_time word =
           \<lfloor>(start (time word) - base_time) * real_of_int (sample_rate ctx)\<rfloor>"
proof -
  have "0 \<le> (start (time word) - base_time) * real_of_int (sample_rate ctx)"
    using assms by simp
  then show ?thesis by (simp add: start_idx_def py_int_def)
qed

lemma length_grow_canvas:
  "0 \<le> e \<Longrightarrow> length (grow_canvas canvas e) = max (length canvas) (nat e)"
  by (auto simp: grow_canvas_def)

lemma grow_canvas_nth:
  "k < length (grow_canvas canvas e) \<Longrightarrow>
   grow_canvas canvas e ! k = (if k < length canvas then canvas ! k else 0)"
  by (auto simp: grow_canvas_def nth_append)

lemma place_word_skip:
  "source_wave word = None \<or> source_wave word = Some [] \<Longrightarrow>
   place_word ctx base_time canvas word = Inr canvas"
  by (auto simp: place_word_def)

lemma place_word_result:
  assumes "0 \<le> sample_rate ctx" and "base_time \<le> start (time word)"
    and "source_wave word = Some src" and "src \<noteq> []"
  shows "\<exists>processed c2.
           apply_declick_envelope ctx src = Inr processed \<and> length processed = length src \<and>
           place_word ctx base_time c1 word = Inr c2 \<and>
           length c2 = max (length c1) (nat (start_idx ctx base_time word) + length src) \<and>
           (\<forall>k<length c2.
              c2 ! k = (if k < length c1 then c1 ! k else 0) +
                       (if nat (start_idx ctx base_time word) \<le> k \<and>
                           k < nat (start_idx ctx base_time word) + length src
                        then processed ! (k - nat (start_idx ctx base_time word)) else 0))"
proof -
  let ?s = "start_idx ctx base_time word"
  let ?off = "nat ?s"
  let ?e = "?s + int (length src)"
  let ?g = "grow_canvas c1 ?e"
  have s0: "0 \<le> ?s" using start_idx_floor[OF assms(1,2)] by blast
  from declick_returns[OF assms(1), of src] obtain processed where
    pr: "apply_declick_envelope ctx src = Inr processed" "length processed = length src" by blast
  have e0: "0 \<le> ?e" using s0 by simp
  have ne: "nat ?e = ?off + length src" using s0 by (simp add: nat_add_distrib)
  have lg: "length ?g = max (length c1) (?off + length src)"
    using length_grow_canvas[OF e0, of c1] ne by simp
  have fits: "?off + length processed \<le> length ?g" using lg pr(2) by simp
  have "?s + int (length processed) \<le> int (length ?g)" using fits s0 by linarith
  from slice_bounds_inside[OF s0 this]
  have b: "slice_bounds (length ?g) (Some ?s) (Some (?s + int (length processed))) =
           (?off, ?off + length processed)" .
  from slice_update_nth[OF b fits, of "(+)"] obtain c2 where
    c2: "slice_update (+) ?g (Some ?s) (Some (?s + int (length processed))) processed = Inr c2"
        "length c2 = length ?g"
        "\<forall>k<length ?g. c2 ! k =
           (if ?off \<le> k \<and> k < ?off + length processed then ?g ! k + processed ! (k - ?off) else ?g ! k)"
    by blast
  have pw: "place_word ctx base_time c1 word = Inr c2"
    using assms(3,4) pr c2(1) by (simp add: place_word_def Let_def)
  have "\<forall>k<length c2.
              c2 ! k = (if k < length c1 then c1 ! k else 0) +
                       (if ?off \<le> k \<and> k < ?off + length src
                        then processed ! (k - ?off) else 0)"
  proof (intro allI impI)
    fix k assume k: "k < length c2"
    then have kg: "k < length ?g" using c2(2) by simp
    from grow_canvas_nth[OF kg] c2(3)[rule_format, OF kg] pr(2)
    show "c2 ! k = (if k < length c1 then c1 ! k else 0) +
                       (if ?off \<le> k \<and> k < ?off + length src
                        then processed ! (k - ?off) else 0)"
      by simp
  qed
  with pr pw c2(2) lg show ?thesis by auto
qed

lemma place_word_total:
  assumes "0 \<le> sample_rate ctx" and "base_time \<le> start (time word)"
  shows "\<exists>c2. place_word ctx base_time c1 word = Inr c2 \<and> length c1 \<le> length c2"
proof (cases "source_wave word = None \<or> source_wave word = Some []")
  case True
  then show ?thesis using place_word_skip[of word ctx base_time c1] by simp
next
  case False
  then obtain src where src: "source_wave word = Some src" "src \<noteq> []" by auto
  from place_word_result[OF assms src, of c1] show ?thesis by auto
qed

lemma connect_words_total:
  assumes "0 \<le> sample_rate ctx" and "\<forall>a\<in>set ws. base_time \<le> start (time (h a))"
  shows "\<exists>c'. connect_words ctx h base_time c ws = Inr c' \<and> length c \<le> length c'"
  using assms(2)
proof (induction ws arbitrary: c)
  case Nil
  then show ?case by simp
next
  case (Cons a ws)
  then have "base_time \<le> start (time (h a))" by simp
  from place_word_total[OF assms(1) this, of c] obtain c2 where
    c2: "place_word ctx base_time c (h a) = Inr c2" "length c \<le> length c2" by blast
  from Cons.IH[of c2] Cons.prems obtain c' where
    "connect_words ctx h base_time c2 ws = Inr c'" "length c2 \<le> length c'" by auto
  with c2 show ?case by auto
qed

lemma connect_words_append:
  "connect_words ctx h base_time c (xs @ ys) =
   (case connect_words ctx h base_time c xs of
      Inl e \<Rightarrow> Inl e
    | Inr c' \<Rightarrow> connect_words ctx h base_time c' ys)"
  by (induction xs arbitrary: c) (auto split: sum.splits)

text \<open>
  Claim C8. Take a section whose notes start no earlier than its first note and whose
  last note does not end before it starts, and a non-negative sample rate. Then the
  assembly returns, and for every note with a non-empty source wave: when its turn
  comes the canvas \<open>c1\<close> is grown with zeros to at least \<open>offset + len(source)\<close>,
  every sample of the enveloped source is added inside the canvas at \<open>offset + j\<close>,
  every other sample is left as it was, and the final canvas is at least as long.
\<close>

theorem canvas_holds_every_source:
  assumes "0 \<le> sample_rate ctx"
    and "wordList sec = pre @ a # post"
    and "\<forall>b\<in>set (wordList sec). start (time (h (hd (wordList sec)))) \<le> start (time (h b))"
    and "start (time (h (last (wordList sec)))) \<le> end' (time (h (last (wordList sec))))"
    and "source_wave (h a) = Some src" and "src \<noteq> []"
  shows "\<exists>canvas0 c1 processed c2 cfinal.
           np_zeros (py_int ((end' (time (h (last (wordList sec)))) -
                              start (time (h (hd (wordList sec)))) + 0.5) *
                             real_of_int (sample_rate ctx))) = Inr canvas0 \<and>
           connect_words ctx h (start (time (h (hd (wordList sec))))) canvas0 pre = Inr c1 \<and>
           apply_declick_envelope ctx src = Inr processed \<and> length processed = length src \<and>
           place_word ctx (start (time (h (hd (wordList sec))))) c1 (h a) = Inr c2 \<and>
           length c2 =
             max (length c1)
                 (nat (start_idx ctx (start (time (h (hd (wordList sec))))) (h a)) + length src) \<and>
           (\<forall>k<length c2.
              c2 ! k = (if k < length c1 then c1 ! k else 0) +
                       (if nat (start_idx ctx (start (time (h (hd (wordList sec))))) (h a)) \<le> k \<and>
                           k < nat (start_idx ctx (start (time (h (hd (wordList sec))))) (h a)) + length src
                        then processed ! (k - nat (start_idx ctx (start (time (h (hd (wordList sec))))) (h a)))
                        else 0)) \<and>
           connect_section ctx h sec = Inr (sec\<lparr>sectionSrc := Some cfinal\<rparr>) \<and>
           length c2 \<le> length cfinal"
proof -
  let ?wl = "wordList sec"
  let ?base = "start (time (h (hd ?wl)))"
  let ?total = "py_int ((end' (time (h (last ?wl))) - ?base + 0.5) * real_of_int (sample_rate ctx))"
  have ne: "?wl \<noteq> []" using assms(2) by simp
  have all: "\<forall>b\<in>set ?wl. ?base \<le> start (time (h b))" using assms(3) .
  have "last ?wl \<in> set ?wl" using ne by simp
  then have "?base \<le> start (time (h (last ?wl)))" using all by blast
  then have "0 \<le> end' (time (h (last ?wl))) - ?base + 0.5" using assms(4) by simp
  then have "0 \<le> (end' (time (h (last ?wl))) - ?base + 0.5) * real_of_int (sample_rate ctx)"
    using assms(1) by simp
  then have "0 \<le> ?total" by (rule py_int_nonneg)
  then obtain canvas0 where z: "np_zeros ?total = Inr canvas0" by (simp add: np_zeros_def)
  have pre_ok: "\<forall>b\<in>set pre. ?base \<le> start (time (h b))"
    and post_ok: "\<forall>b\<in>set post. ?base \<le> start (time (h b))"
    and a_ok: "?base \<le> start (time (h a))"
    using all assms(2) by auto
  from connect_words_total[OF assms(1) pre_ok, of canvas0] obtain c1 where
    c1: "connect_words ctx h ?base canvas0 pre = Inr c1" by blast
  from place_word_result[OF assms(1) a_ok assms(5,6), of c1] obtain processed c2 where
    pr: "apply_declick_envelope ctx src = Inr processed" "length processed = length src"
    and c2: "place_word ctx ?base c1 (h a) = Inr c2"
      "length c2 = max (length c1) (nat (start_idx ctx ?base (h a)) + length src)"
      "\<forall>k<length c2.
              c2 ! k = (if k < length c1 then c1 ! k else 0) +
                       (if nat (start_idx ctx ?base (h a)) \<le> k \<and>
                           k < nat (start_idx ctx ?base (h a)) + length src
                        then processed ! (k - nat (start_idx ctx ?base (h a))) else 0)"
    by blast
  from connect_words_total[OF assms(1) post_ok, of c2] obtain cfinal where
    cf: "connect_words ctx h ?base c2 post = Inr cfinal" "length c2 \<le> length cfinal" by blast
  have "connect_words ctx h ?base canvas0 (pre @ a # post) = Inr cfinal"
    using c1 c2(1) cf(1) by (simp add: connect_words_append)
  then have "connect_words ctx h ?base canvas0 ?wl = Inr cfinal"
    using assms(2) by simp
  then have cs: "connect_section ctx h sec = Inr (sec\<lparr>sectionSrc := Some cfinal\<rparr>)"
    using ne z by (simp add: connect_section_def Let_def)
  from z c1 pr c2 cs cf(2) show ?thesis by blast
qed

lemma demo_words:
  "demo_store 0 = (mk_word 0 (7/16))\<lparr>oriWave := Some [5, 5], pitchedWave := Some [1]\<rparr>"
  "demo_store (Suc 0) = (mk_word (7/16) (1/2))\<lparr>oriWave := Some [2, 2, 2, 2]\<rparr>"
  by (simp_all add: demo_store_def store_of_def)

lemma demo_sources:
  "source_wave (demo_store 0) = Some [1]"
  "source_wave (demo_store (Suc 0)) = Some [2, 2, 2, 2]"
  by (simp_all add: demo_words source_wave_def mk_word_def)

lemma demo_declick: "apply_declick_envelope demo_context w = Inr w"
  by (simp add: apply_declick_envelope_def fade_samples_of_def demo_context_def py_int_def)

lemma demo_start_idx:
  "start_idx demo_context 0 (demo_store 0) = 0"
  "start_idx demo_context 0 (demo_store (Suc 0)) = 1"
  by (simp_all add: demo_words mk_word_def start_idx_def demo_context_def py_int_def)

lemma demo_slices:
  "slice_update (+) [0, 0, 0, 0] (Some 0) (Some 1) [1] = Inr [1, 0, 0, 0]"
  "slice_update (+) [1, 0, 0, 0, 0] (Some 1) (Some 5) [2, 2, 2, 2] = Inr [1, 2, 2, 2, 2]"
  by (simp_all add: slice_update_def slice_bounds_def)

lemma demo_place0:
  "place_word demo_context 0 [0, 0, 0, 0] (demo_store 0) = Inr [1, 0, 0, 0]"
  by (simp add: place_word_def demo_sources demo_start_idx demo_declick grow_canvas_def
      demo_slices)

lemma demo_place1:
  "place_word demo_context 0 [1, 0, 0, 0] (demo_store (Suc 0)) = Inr [1, 2, 2, 2, 2]"
  by (simp add: place_word_def demo_sources demo_start_idx demo_declick grow_canvas_def
      demo_slices)

lemma demo_zeros:
  "np_zeros (py_int ((end' (time (demo_store (Suc 0))) - start (time (demo_store 0)) + 0.5) *
             real_of_int (sample_rate demo_context))) = Inr [0, 0, 0, 0]"
proof -
  have "py_int ((end' (time (demo_store (Suc 0))) - start (time (demo_store 0)) + 0.5) *
             real_of_int (sample_rate demo_context)) = 4"
    by (simp add: demo_words mk_word_def demo_context_def py_int_def)
  moreover have "replicate (nat 4) (0 :: real) = [0, 0, 0, 0]"
    by (simp add: eval_nat_numeral)
  ultimately show ?thesis by (simp add: np_zeros_def)
qed

lemma demo_connect:
  "connect_section demo_context demo_store demo_section =
   Inr (demo_section\<lparr>sectionSrc := Some [1, 2, 2, 2, 2]\<rparr>)"
proof -
  have b: "start (time (demo_store 0)) = 0" by (simp add: demo_words mk_word_def)
  show ?thesis
    using demo_zeros b demo_place0 demo_place1
    by (simp add: connect_section_def demo_section_def Let_def)
qed

theorem canvas_holds_every_source_witness:
  "0 \<le> sample_rate demo_context \<and>
   wordList demo_section = [0] @ 1 # [] \<and>
   start (time (demo_store (hd (wordList demo_section)))) \<le> start (time (demo_store 0)) \<and>
   start (time (demo_store (hd (wordList demo_section)))) \<le> start (time (demo_store 1)) \<and>
   start (time (demo_store (last (wordList demo_section)))) \<le>
     end' (time (demo_store (last (wordList demo_section)))) \<and>
   source_wave (demo_store 1) = Some [2, 2, 2, 2] \<and> [2, 2, 2, 2 :: real] \<noteq> [] \<and>
   connect_section demo_context demo_store demo_section =
     Inr (demo_section\<lparr>sectionSrc := Some [1, 2, 2, 2, 2]\<rparr>) \<and>
   (\<exists>c1 c2 cfinal.
      place_word demo_context (start (time (demo_store (hd (wordList demo_section))))) c1
        (demo_store 1) = Inr c2 \<and>
      length c2 =
        max (length c1)
          (nat (start_idx demo_context (start (time (demo_store (hd (wordList demo_section)))))
                 (demo_store 1)) + length [2, 2, 2, 2 :: real]) \<and>
      connect_section demo_context demo_store demo_section =
        Inr (demo_section\<lparr>sectionSrc := Some cfinal\<rparr>) \<and>
      length c2 \<le> length cfinal)"
proof -
  have a1: "0 \<le> sample_rate demo_context" by (simp add: demo_context_def)
  have a2: "wordList demo_section = [0] @ 1 # []" by (simp add: demo_section_def)
  have a3: "\<forall>b\<in>set (wordList demo_section).
      start (time (demo_store (hd (wordList demo_section)))) \<le> start (time (demo_store b))"
    by (simp add: demo_section_def demo_words mk_word_def)
  have a4: "start (time (demo_store (last (wordList demo_section)))) \<le>
     end' (time (demo_store (last (wordList demo_section))))"
    by (simp add: demo_section_def demo_words mk_word_def)
  have a5: "source_wave (demo_store 1) = Some [2, 2, 2, 2]" using demo_sources by simp
  have a6: "[2, 2, 2, 2 :: real] \<noteq> []" by simp
  from canvas_holds_every_source[OF a1 a2 a3 a4 a5 a6]
  have "\<exists>c1 c2 cfinal.
      place_word demo_context (start (time (demo_store (hd (wordList demo_section))))) c1
        (demo_store 1) = Inr c2 \<and>
      length c2 =
        max (length c1)
          (nat (start_idx demo_context (start (time (demo_store (hd (wordList demo_section)))))
                 (demo_store 1)) + length [2, 2, 2, 2 :: real]) \<and>
      connect_section demo_context demo_store demo_section =
        Inr (demo_section\<lparr>sectionSrc := Some cfinal\<rparr>) \<and>
      length c2 \<le> length cfinal"
    by blast
  moreover have "start (time (demo_store (hd (wordList demo_section)))) \<le> start (time (demo_store 0))"
    and "start (time (demo_store (hd (wordList demo_section)))) \<le> start (time (demo_store 1))"
    by (simp_all add: demo_section_def demo_words mk_word_def)
  ultimately show ?thesis using a1 a2 a4 a5 a6 demo_connect by blast
qed

lemma round_cases:
  fixes x :: real
  shows "(frac x < 1/2 \<longrightarrow> round x = \<lfloor>x\<rfloor>) \<and> (1/2 \<le> frac x \<longrightarrow> round x = \<lfloor>x\<rfloor> + 1)"
proof (intro conjI impI)
  assume "frac x < 1/2"
  then have "of_int \<lfloor>x\<rfloor> \<le> x + 1/2" "x + 1/2 < of_int \<lfloor>x\<rfloor> + 1"
    by (simp_all add: frac_def) linarith
  then show "round x = \<lfloor>x\<rfloor>" unfolding round_def by (simp add: floor_eq_iff)
next
  assume "1/2 \<le> frac x"
  moreover have "frac x < 1" by (rule frac_lt_1)
  ultimately have "of_int (\<lfloor>x\<rfloor> + 1) \<le> x + 1/2" "x + 1/2 < of_int (\<lfloor>x\<rfloor> + 1) + 1"
    by (simp_all add: frac_def)
  then show "round x = \<lfloor>x\<rfloor> + 1" unfolding round_def by (simp add: floor_eq_iff)
qed

lemma round_half_even_nonneg: "0 \<le> x \<Longrightarrow> 0 \<le> round_half_even x"
  by (auto simp: round_half_even_def Let_def)

lemma binary64_nonneg: "0 \<le> x \<Longrightarrow> 0 \<le> binary64 x"
  by (auto simp: binary64_def Let_def intro!: mult_nonneg_nonneg round_half_even_nonneg)

lemma binary64_eval:
  assumes "2 powr of_int e \<le> \<bar>x\<bar>" and "\<bar>x\<bar> < 2 powr (of_int e + 1)"
  shows "binary64 x =
         of_int (round_half_even (x / 2 powr of_int (e - 52))) * 2 powr of_int (e - 52)"
proof -
  have pos: "0 < \<bar>x\<bar>" using assms(1) by (smt (verit) powr_gt_zero)
  then have "\<lfloor>log 2 \<bar>x\<bar>\<rfloor> = e"
    using assms by (simp add: floor_log_eq_powr_iff)
  with pos show ?thesis by (simp add: binary64_def Let_def)
qed

lemma diff_rounded: "binary64 (double_076 - double_006) = 3152519739159347 / 2 ^ 52"
proof -
  have x: "double_076 - double_006 = 12610078956637389 / 2 ^ 54"
    by (simp add: double_076_def double_006_def)
  have b: "2 powr of_int (- 1) \<le> \<bar>12610078956637389 / 2 ^ 54 :: real\<bar>"
     "\<bar>12610078956637389 / 2 ^ 54 :: real\<bar> < 2 powr (of_int (- 1) + 1)"
    by (simp_all add: powr_minus)
  have q: "(12610078956637389 / 2 ^ 54 :: real) / 2 powr of_int (- 1 - 52) = 12610078956637389 / 2"
    by (simp add: powr_neg_numeral)
  have r: "round_half_even (12610078956637389 / 2) = 6305039478318694"
    by (simp add: round_half_even_def Let_def)
  show ?thesis
    unfolding x binary64_eval[OF b] q r by (simp add: powr_neg_numeral)
qed

lemma product_rounded:
  "binary64 (3152519739159347 / 2 ^ 52 * 22050) = 8485480987361279 / 2 ^ 39"
proof -
  have x: "(3152519739159347 / 2 ^ 52 * 22050 :: real) = 34756530124231800675 / 2 ^ 51"
    by simp
  have b: "2 powr of_int 13 \<le> \<bar>34756530124231800675 / 2 ^ 51 :: real\<bar>"
     "\<bar>34756530124231800675 / 2 ^ 51 :: real\<bar> < 2 powr (of_int 13 + 1)"
    by simp_all
  have q: "(34756530124231800675 / 2 ^ 51 :: real) / 2 powr of_int (13 - 52) =
           34756530124231800675 / 4096"
    by (simp add: powr_neg_numeral)
  have r: "round_half_even (34756530124231800675 / 4096) = 8485480987361279"
    by (simp add: round_half_even_def Let_def)
  show ?thesis
    unfolding x binary64_eval[OF b] q r by (simp add: powr_neg_numeral)
qed


lemma start_idx_fl_floor:
  assumes "\<forall>x. 0 \<le> x \<longrightarrow> 0 \<le> fl x"
    and "0 \<le> sample_rate ctx" and "base_time \<le> start (time word)"
  shows "0 \<le> start_idx_fl fl ctx base_time word \<and>
         start_idx_fl fl ctx base_time word =
           \<lfloor>fl (fl (start (time word) - base_time) * real_of_int (sample_rate ctx))\<rfloor>"
proof -
  have "0 \<le> fl (start (time word) - base_time)" using assms(1,3) by simp
  then have "0 \<le> fl (start (time word) - base_time) * real_of_int (sample_rate ctx)"
    using assms(2) by simp
  then have "0 \<le> fl (fl (start (time word) - base_time) * real_of_int (sample_rate ctx))"
    using assms(1) by blast
  then show ?thesis by (simp add: start_idx_fl_def py_int_def)
qed

lemma place_word_fl_result:
  assumes "0 \<le> sample_rate ctx" and "0 \<le> start_idx_fl fl ctx base_time word"
    and "source_wave word = Some src" and "src \<noteq> []"
  shows "\<exists>processed c2.
           apply_declick_envelope ctx src = Inr processed \<and> length processed = length src \<and>
           place_word_fl fl ctx base_time c1 word = Inr c2 \<and>
           length c2 = max (length c1) (nat (start_idx_fl fl ctx base_time word) + length src) \<and>
           (\<forall>k<length c2.
              c2 ! k = (if k < length c1 then c1 ! k else 0) +
                       (if nat (start_idx_fl fl ctx base_time word) \<le> k \<and>
                           k < nat (start_idx_fl fl ctx base_time word) + length src
                        then processed ! (k - nat (start_idx_fl fl ctx base_time word)) else 0))"
proof -
  let ?s = "start_idx_fl fl ctx base_time word"
  let ?off = "nat ?s"
  let ?e = "?s + int (length src)"
  let ?g = "grow_canvas c1 ?e"
  have s0: "0 \<le> ?s" using assms(2) .
  from declick_returns[OF assms(1), of src] obtain processed where
    pr: "apply_declick_envelope ctx src = Inr processed" "length processed = length src" by blast
  have e0: "0 \<le> ?e" using s0 by simp
  have ne: "nat ?e = ?off + length src" using s0 by (simp add: nat_add_distrib)
  have lg: "length ?g = max (length c1) (?off + length src)"
    using length_grow_canvas[OF e0, of c1] ne by simp
  have fits: "?off + length processed \<le> length ?g" using lg pr(2) by simp
  have "?s + int (length processed) \<le> int (length ?g)" using fits s0 by linarith
  from slice_bounds_inside[OF s0 this]
  have b: "slice_bounds (length ?g) (Some ?s) (Some (?s + int (length processed))) =
           (?off, ?off + length processed)" .
  from slice_update_nth[OF b fits, of "(+)"] obtain c2 where
    c2: "slice_update (+) ?g (Some ?s) (Some (?s + int (length processed))) processed = Inr c2"
        "length c2 = length ?g"
        "\<forall>k<length ?g. c2 ! k =
           (if ?off \<le> k \<and> k < ?off + length processed then ?g ! k + processed ! (k - ?off) else ?g ! k)"
    by blast
  have pw: "place_word_fl fl ctx base_time c1 word = Inr c2"
    using assms(3,4) pr c2(1) by (simp add: place_word_fl_def Let_def)
  have "\<forall>k<length c2.
              c2 ! k = (if k < length c1 then c1 ! k else 0) +
                       (if ?off \<le> k \<and> k < ?off + length src
                        then processed ! (k - ?off) else 0)"
  proof (intro allI impI)
    fix k assume k: "k < length c2"
    then have kg: "k < length ?g" using c2(2) by simp
    from grow_canvas_nth[OF kg] c2(3)[rule_format, OF kg] pr(2)
    show "c2 ! k = (if k < length c1 then c1 ! k else 0) +
                       (if ?off \<le> k \<and> k < ?off + length src
                        then processed ! (k - ?off) else 0)"
      by simp
  qed
  with pr pw c2(2) lg show ?thesis by auto
qed

lemma place_word_fl_exact: "place_word_fl (\<lambda>x. x) ctx base_time canvas word = place_word ctx base_time canvas word"
proof -
  have eq: "start_idx_fl (\<lambda>x. x) ctx base_time word = start_idx ctx base_time word"
    by (simp add: start_idx_fl_def start_idx_def)
  show ?thesis unfolding place_word_fl_def place_word_def eq by (rule refl)
qed

text \<open>
  Claim C6, amended. Let \<open>p\<close> be the product \<open>(start - base) * sample_rate\<close> as the
  floats compute it: the difference rounded, then the product rounded. For a note
  that starts no earlier than the base time, and any rounding \<open>fl\<close> that keeps
  non-negative numbers non-negative, the offset is \<open>int(p)\<close>, the floor of \<open>p\<close>. It is
  \<open>round(p)\<close> when the fractional part of \<open>p\<close> is below one half and \<open>round(p) - 1\<close>
  when it is above one half. The enveloped source is added to the canvas from that
  index on.
\<close>

theorem placement_offset_truncates_double_product:
  assumes "\<forall>x. 0 \<le> x \<longrightarrow> 0 \<le> fl x"
    and "0 \<le> sample_rate ctx" and "base_time \<le> start (time word)"
    and "source_wave word = Some src" and "src \<noteq> []"
  shows "start_idx_fl fl ctx base_time word =
           \<lfloor>fl (fl (start (time word) - base_time) * real_of_int (sample_rate ctx))\<rfloor> \<and>
         (frac (fl (fl (start (time word) - base_time) * real_of_int (sample_rate ctx))) < 1/2 \<longrightarrow>
            start_idx_fl fl ctx base_time word =
              round (fl (fl (start (time word) - base_time) * real_of_int (sample_rate ctx)))) \<and>
         (1/2 < frac (fl (fl (start (time word) - base_time) * real_of_int (sample_rate ctx))) \<longrightarrow>
            start_idx_fl fl ctx base_time word =
              round (fl (fl (start (time word) - base_time) * real_of_int (sample_rate ctx))) - 1) \<and>
         (\<exists>processed c2.
            apply_declick_envelope ctx src = Inr processed \<and>
            place_word_fl fl ctx base_time (replicate n 0) word = Inr c2 \<and>
            (\<forall>k<length c2.
               c2 ! k =
                 (if nat \<lfloor>fl (fl (start (time word) - base_time) * real_of_int (sample_rate ctx))\<rfloor> \<le> k \<and>
                     k < nat \<lfloor>fl (fl (start (time word) - base_time) * real_of_int (sample_rate ctx))\<rfloor>
                           + length src
                  then processed !
                         (k - nat \<lfloor>fl (fl (start (time word) - base_time) * real_of_int (sample_rate ctx))\<rfloor>)
                  else 0)))"
proof -
  let ?p = "fl (fl (start (time word) - base_time) * real_of_int (sample_rate ctx))"
  from start_idx_fl_floor[OF assms(1,2,3)]
  have s0: "0 \<le> start_idx_fl fl ctx base_time word"
    and fl: "start_idx_fl fl ctx base_time word = \<lfloor>?p\<rfloor>" by blast+
  from place_word_fl_result[OF assms(2) s0 assms(4,5), of "replicate n 0"] obtain processed c2 where
    pr: "apply_declick_envelope ctx src = Inr processed"
    and c2: "place_word_fl fl ctx base_time (replicate n 0) word = Inr c2"
      "\<forall>k<length c2.
              c2 ! k = (if k < length (replicate n (0::real)) then replicate n 0 ! k else 0) +
                       (if nat (start_idx_fl fl ctx base_time word) \<le> k \<and>
                           k < nat (start_idx_fl fl ctx base_time word) + length src
                        then processed ! (k - nat (start_idx_fl fl ctx base_time word)) else 0)"
    by blast
  have nth: "\<forall>k<length c2.
               c2 ! k = (if nat \<lfloor>?p\<rfloor> \<le> k \<and> k < nat \<lfloor>?p\<rfloor> + length src
                         then processed ! (k - nat \<lfloor>?p\<rfloor>) else 0)"
  proof (intro allI impI)
    fix k assume "k < length c2"
    from c2(2)[rule_format, OF this]
    show "c2 ! k = (if nat \<lfloor>?p\<rfloor> \<le> k \<and> k < nat \<lfloor>?p\<rfloor> + length src
                         then processed ! (k - nat \<lfloor>?p\<rfloor>) else 0)"
      unfolding fl by simp
  qed
  from round_cases[of ?p] have r1: "frac ?p < 1/2 \<longrightarrow> \<lfloor>?p\<rfloor> = round ?p"
    and r2: "1/2 < frac ?p \<longrightarrow> \<lfloor>?p\<rfloor> = round ?p - 1" by auto
  show ?thesis
    unfolding fl using r1 r2 pr c2(1) nth by blast
qed

text \<open>
  Claim C6 as stated fails: at four samples per second a note that starts \<open>7/16\<close>
  seconds after the base is placed at sample \<open>1\<close>, while \<open>round(1.75) = 2\<close>; the
  assembled canvas shows its samples from index \<open>1\<close> on.
\<close>

theorem placement_offset_round_counterexample:
  "start_idx demo_context (start (time (demo_store 0))) (demo_store 1) = 1 \<and>
   round ((start (time (demo_store 1)) - start (time (demo_store 0))) *
          real_of_int (sample_rate demo_context)) = 2 \<and>
   connect_section demo_context demo_store demo_section =
     Inr (demo_section\<lparr>sectionSrc := Some [1, 2, 2, 2, 2]\<rparr>)"
proof -
  have "start (time (demo_store 0)) = 0" by (simp add: demo_words mk_word_def)
  then have "start_idx demo_context (start (time (demo_store 0))) (demo_store 1) = 1"
    using demo_start_idx by simp
  moreover have "round ((start (time (demo_store 1)) - start (time (demo_store 0))) *
          real_of_int (sample_rate demo_context)) = 2"
    by (simp add: demo_words mk_word_def demo_context_def round_def)
  ultimately show ?thesis using demo_connect by blast
qed

text \<open>
  At \<open>22050\<close> samples per second, a note at \<open>0.76\<close> in a phrase that starts at
  \<open>0.06\<close>: the difference rounds to the float \<open>0.7\<close>, the product to
  \<open>15434.999999999998\<close>, and the offset is \<open>15434\<close>, one less than the floor of the
  exact product.
\<close>

lemma round_half_even_of_int: "round_half_even (of_int n) = n"
  by (simp add: round_half_even_def)

text \<open>
  On the two-note section above every float operation of the offset is exact, and the
  rounded computation gives the same offset \<open>1\<close>.
\<close>

lemma demo_start_idx_double:
  "start_idx_fl binary64 demo_context (start (time (demo_store 0))) (demo_store 1) = 1"
proof -
  have b1: "2 powr of_int (- 2) \<le> \<bar>7 / 16 :: real\<bar>" "\<bar>7 / 16 :: real\<bar> < 2 powr (of_int (- 2) + 1)"
    by (simp_all add: powr_neg_numeral powr_minus)
  have q1: "(7 / 16 :: real) / 2 powr of_int (- 2 - 52) = of_int (7 * 2 ^ 50)"
    by (simp add: powr_neg_numeral)
  have d: "binary64 (7 / 16) = 7 / 16"
    unfolding binary64_eval[OF b1] q1 round_half_even_of_int by (simp add: powr_neg_numeral)
  have b2: "2 powr of_int 0 \<le> \<bar>7 / 4 :: real\<bar>" "\<bar>7 / 4 :: real\<bar> < 2 powr (of_int 0 + 1)"
    by simp_all
  have q2: "(7 / 4 :: real) / 2 powr of_int (0 - 52) = of_int (7 * 2 ^ 50)"
    by (simp add: powr_neg_numeral)
  have p: "binary64 (7 / 4) = 7 / 4"
    unfolding binary64_eval[OF b2] q2 round_half_even_of_int by (simp add: powr_neg_numeral)
  have s: "start (time (demo_store 1)) - start (time (demo_store 0)) = 7 / 16"
    by (simp add: demo_words mk_word_def)
  have r: "real_of_int (sample_rate demo_context) = 4" by (simp add: demo_context_def)
  have m: "(7 / 16 :: real) * 4 = 7 / 4" by simp
  have v: "py_int (7 / 4) = 1" by (simp add: py_int_def)
  show ?thesis
    unfolding start_idx_fl_def Let_def s r d m p by (rule v)
qed

lemma late_word_product:
  "binary64 (binary64 (start (time late_word) - double_006) *
             real_of_int (sample_rate default_context)) = 8485480987361279 / 2 ^ 39"
proof -
  have st: "start (time late_word) = double_076" by (simp add: late_word_def mk_word_def)
  have sr: "real_of_int (sample_rate default_context) = 22050"
    by (simp add: default_context_def)
  have e: "binary64 (binary64 (double_076 - double_006) * 22050) = 8485480987361279 / 2 ^ 39"
    by (simp only: diff_rounded product_rounded)
  show ?thesis unfolding st sr by (rule e)
qed

theorem placement_offset_truncates_double_product_witness:
  "0 \<le> sample_rate default_context \<and> double_006 \<le> start (time late_word) \<and>
   source_wave late_word = Some [1] \<and> [1 :: real] \<noteq> [] \<and>
   binary64 (binary64 (start (time late_word) - double_006) *
             real_of_int (sample_rate default_context)) = 8485480987361279 / 2 ^ 39 \<and>
   start_idx_fl binary64 default_context double_006 late_word =
     \<lfloor>binary64 (binary64 (start (time late_word) - double_006) *
                real_of_int (sample_rate default_context))\<rfloor> \<and>
   start_idx_fl binary64 default_context double_006 late_word = 15434 \<and>
   \<lfloor>(start (time late_word) - double_006) * real_of_int (sample_rate default_context)\<rfloor> = 15435"
proof -
  have nn: "\<forall>x. 0 \<le> x \<longrightarrow> 0 \<le> binary64 x" using binary64_nonneg by blast
  have a1: "0 \<le> sample_rate default_context" by (simp add: default_context_def)
  have a2: "double_006 \<le> start (time late_word)"
    by (simp add: late_word_def mk_word_def double_076_def double_006_def)
  have a3: "source_wave late_word = Some [1]"
    by (simp add: late_word_def mk_word_def source_wave_def)
  have a4: "[1 :: real] \<noteq> []" by simp
  from placement_offset_truncates_double_product[OF nn a1 a2 a3 a4]
  have f: "start_idx_fl binary64 default_context double_006 late_word =
     \<lfloor>binary64 (binary64 (start (time late_word) - double_006) *
                real_of_int (sample_rate default_context))\<rfloor>"
    by blast
  have v: "\<lfloor>8485480987361279 / 2 ^ 39 :: real\<rfloor> = 15434" by simp
  have i: "start_idx_fl binary64 default_context double_006 late_word = 15434"
    using f v by (simp add: late_word_product)
  have x: "\<lfloor>(start (time late_word) - double_006) * real_of_int (sample_rate default_context)\<rfloor> = 15435"
    by (simp add: late_word_def mk_word_def double_076_def double_006_def default_context_def)
  from a1 a2 a3 a4 late_word_product f i x show ?thesis by blast
qed

text \<open>
  Claim C7 on the code. With \<open>fade_samples = 1\<close> the fade-out multiplies the last
  sample by \<open>np.linspace(1, 0, 1) = [1]\<close>: on a two-sample wave at the default sample
  rate, \<open>fade_samples = min(110, 2 div 2) = 1 > 0\<close> and the wave has
  \<open>2 * fade_samples\<close> samples, the first sample of the copy is \<open>0\<close> and the last one
  is still \<open>1\<close>.
\<close>

theorem declick_single_sample_fade_keeps_last:
  "fade_samples_of default_context [1, 1] = 1 \<and>
   2 * fade_samples_of default_context [1, 1] \<le> int (length [1, 1 :: real]) \<and>
   apply_declick_envelope default_context [1, 1] = Inr [0, 1] \<and>
   last [0, 1 :: real] \<noteq> 0"
proof -
  have f: "fade_samples_of default_context [1, 1] = 1"
    by (simp add: fade_samples_of_def default_context_def py_int_def)
  have "apply_declick_envelope default_context [1, 1] = Inr [0, 1]"
    by (simp add: apply_declick_envelope_def f np_linspace_def slice_update_def slice_bounds_def)
  with f show ?thesis by simp
qed

lemma declick_low_rate_keeps_last:
  "fade_samples_of \<lparr>sample_rate = 300, isDebug = False\<rparr> [1, 1, 1, 1] = 1 \<and>
   apply_declick_envelope \<lparr>sample_rate = 300, isDebug = False\<rparr> [1, 1, 1, 1] = Inr [0, 1, 1, 1]"
proof -
  have f: "fade_samples_of \<lparr>sample_rate = 300, isDebug = False\<rparr> [1, 1, 1, 1] = 1"
    by (simp add: fade_samples_of_def py_int_def)
  have "apply_declick_envelope \<lparr>sample_rate = 300, isDebug = False\<rparr> [1, 1, 1, 1] = Inr [0, 1, 1, 1]"
    by (simp add: apply_declick_envelope_def f np_linspace_def slice_update_def slice_bounds_def)
  with f show ?thesis by simp
qed

section \<open>The engine: lemmas\<close>

text \<open>
  After \<open>__init__\<close> the pitch stage always fails: the engine has no \<open>coder\<close>. With
  all five modules in place and succeeding, \<open>process_score\<close> chains them in order.
\<close>

lemma process_score_after_init:
  assumes "path_exists score_path" and "decode score_path = Inr song1" and "speak song1 = Inr song2"
  shows "process_score (init_engine decode speak) path_exists score_path =
         Inl (StageFailed AdjustPitch AttributeError)"
  using assms
  by (simp add: process_score_def init_engine_def decode_score_def generate_speech_def
      adjust_pitch_def wrap_stage_def call_attr_def)

lemma process_score_all_stages:
  assumes "path_exists score_path"
    and "decoder self score_path = Inr song1"
    and "speech_generator self song1 = Inr song2"
    and "coder self = Some shift" and "shift song2 = Inr song3"
    and "wave_connector self = Some connect" and "connect song3 = Inr song4"
    and "output_generator self = Some export" and "export song4 = Inr output_path"
  shows "process_score self path_exists score_path = Inr output_path"
  using assms
  by (simp add: process_score_def decode_score_def generate_speech_def adjust_pitch_def
      smooth_connect_def generate_output_def wrap_stage_def call_attr_def)

text \<open>
  Claim C4 on the code. On an engine as \<open>__init__\<close> builds it, for a score file that
  exists, decodes and is synthesised without error, \<open>process_score\<close> raises at the
  third stage: reading \<open>self.coder\<close> raises \<open>AttributeError\<close>, which \<open>_adjust_pitch\<close>
  wraps. The last two stages do not run and no path is returned.
\<close>

theorem process_score_stops_at_pitch_stage:
  "process_score (init_engine (\<lambda>p. Inr demo_song) (\<lambda>s. Inr s)) (\<lambda>p. True) ''score.musicxml'' =
   Inl (StageFailed AdjustPitch AttributeError)"
  by (simp add: process_score_def init_engine_def decode_score_def generate_speech_def
      adjust_pitch_def wrap_stage_def call_attr_def)

end
